theory Spec2Isabelle
  imports Main "HOL-Library.Word" "HOL-Library.Product_Lexorder" "HOL-Library.Multiset"
begin

section \<open>Deliveries, broker calls and the worker's retry loop\<close>

text \<open>
  The tenant package (\<^verbatim>\<open>TenantManager\<close>, \<^verbatim>\<open>TenantConsumer\<close>) talks to two external
  systems, the store and the broker. Their calls are recorded as events in the order the
  code issues them; whether a call fails is an input of the model.
\<close>

type_synonym chan = nat

type_synonym amqp_channel = nat

text \<open>\<^verbatim>\<open>amqp091.Delivery\<close>: the raw body and the tag the broker acknowledges by.\<close>

record Delivery =
  Body :: string
  DeliveryTag :: nat

text \<open>
  The task channel carries \<^verbatim>\<open>interface{}\<close> values; a worker handles the ones that are
  deliveries (\<^verbatim>\<open>task.(amqp091.Delivery)\<close>) and ignores every other value.
\<close>

datatype task = DeliveryTask Delivery | OtherTask

text \<open>\<^verbatim>\<open>amqp091.Publishing\<close>, with the three fields \<^verbatim>\<open>sendToDLQ\<close> sets.\<close>

record Publishing =
  ContentType :: string
  PubBody :: string
  DeliveryMode :: nat

definition Persistent :: nat where
  "Persistent = 2"

datatype event =
    InsertMessage string string
  | MessagesTotalInc string
  | Ack nat bool
  | Nack nat bool bool
  | Publish amqp_channel string string bool bool Publishing
  | Sleep int

text \<open>
  The fields of \<^verbatim>\<open>TenantConsumer\<close>. The wait group is the set of live worker goroutines
  kept in the runtime state below. \<^verbatim>\<open>manager\<close> is a pointer that is either nil or the
  manager owning the consumer (the only assignment is \<^verbatim>\<open>tc.manager = tm\<close>); the model
  keeps whether it is set, and the worker is given that manager's \<^verbatim>\<open>DB\<close>.
\<close>

record TenantConsumer =
  ID :: string
  StopCh :: chan
  Workers :: int
  TaskCh :: chan
  workerStopChans :: "chan list"
  amqpChannel :: "amqp_channel option"
  amqpDeliveryCh :: "chan option"
  consumerTag :: string
  manager :: bool

definition maxRetry :: nat where
  "maxRetry = 3"

text \<open>\<^verbatim>\<open>time.Second\<close>, in nanoseconds, the unit of \<^verbatim>\<open>time.Duration\<close>.\<close>

definition Second :: int where
  "Second = 1000000000"

definition dlqName :: "string \<Rightarrow> string" where
  "dlqName tid = ''tenant_'' @ tid @ ''_dlq''"

definition queueName :: "string \<Rightarrow> string" where
  "queueName tid = ''tenant_'' @ tid @ ''_queue''"

text \<open>
  \<^verbatim>\<open>sendToDLQ\<close>: nothing at all without a broker channel; otherwise one publish to the
  dead-letter queue, then an ack when it succeeded and a nack with requeue when not.
  \<open>pub_err\<close> says whether the publish returns an error.
\<close>

definition sendToDLQ :: "TenantConsumer \<Rightarrow> bool \<Rightarrow> Delivery \<Rightarrow> event list" where
  "sendToDLQ tc pub_err msg =
     (case amqpChannel tc of
        None \<Rightarrow> []
      | Some ch \<Rightarrow>
          [Publish ch '''' (dlqName (ID tc)) False False
             \<lparr>ContentType = ''application/json'', PubBody = Body msg, DeliveryMode = Persistent\<rparr>]
          @ (if \<not> pub_err then [Ack (DeliveryTag msg) False]
             else [Nack (DeliveryTag msg) False True]))"

text \<open>
  The loop \<^verbatim>\<open>for attempt := 1; attempt <= maxRetry; attempt++\<close> of the worker. \<open>db\<close> is
  \<^verbatim>\<open>tc.manager.DB != nil\<close> for the owning manager; \<open>ins_err k\<close> says whether the insert
  of attempt \<open>k\<close> returns an error. Without manager or pool no insert is issued and
  \<^verbatim>\<open>err\<close> stays nil. The sleep follows every failed attempt, the last one included.
\<close>

function retry_loop ::
  "TenantConsumer \<Rightarrow> bool \<Rightarrow> (nat \<Rightarrow> bool) \<Rightarrow> bool \<Rightarrow> Delivery \<Rightarrow> nat \<Rightarrow> event list" where
  "retry_loop tc db ins_err pub_err msg attempt =
     (if attempt \<le> maxRetry then
        (let has_store = (manager tc \<and> db);
             inserted = (if has_store then [InsertMessage (ID tc) (Body msg)] else []);
             err = (has_store \<and> ins_err attempt)
         in if \<not> err then
              inserted @ [MessagesTotalInc (ID tc), Ack (DeliveryTag msg) False]
            else
              inserted
              @ (if attempt = maxRetry then sendToDLQ tc pub_err msg else [])
              @ [Sleep (int attempt * Second)]
              @ retry_loop tc db ins_err pub_err msg (attempt + 1))
      else [])"
  by pat_completeness auto
termination
  by (relation "measure (\<lambda>(tc, db, ins_err, pub_err, msg, attempt). Suc maxRetry - attempt)") auto

declare retry_loop.simps [simp del]

text \<open>What a worker does with one value received from the task channel.\<close>

fun process_task ::
  "TenantConsumer \<Rightarrow> bool \<Rightarrow> (nat \<Rightarrow> bool) \<Rightarrow> bool \<Rightarrow> task \<Rightarrow> event list" where
  "process_task tc db ins_err pub_err (DeliveryTask msg) = retry_loop tc db ins_err pub_err msg 1"
| "process_task tc db ins_err pub_err OtherTask = []"

fun is_insert :: "event \<Rightarrow> bool" where
  "is_insert (InsertMessage t p) = True"
| "is_insert e = False"

fun is_publish :: "event \<Rightarrow> bool" where
  "is_publish (Publish ch ex key m i p) = True"
| "is_publish e = False"

fun is_settle :: "event \<Rightarrow> bool" where
  "is_settle (Ack t m) = True"
| "is_settle (Nack t m r) = True"
| "is_settle e = False"

declare process_task.simps [simp del]

section \<open>The messages table and the paginated read\<close>

text \<open>
  A row of \<^verbatim>\<open>messages\<close>. A UUID is sixteen bytes, which PostgreSQL compares bytewise,
  that is as an unsigned 128-bit number; \<^verbatim>\<open>created_at\<close> is a timestamp, a count of
  microseconds. Every row is written by \<^verbatim>\<open>insertMessage\<close>, which leaves \<^verbatim>\<open>created_at\<close>
  to its default, so the column is never null.
\<close>

type_synonym uuid = "128 word"

record Message =
  m_ID :: uuid
  m_TenantID :: string
  m_Payload :: string
  m_CreatedAt :: int

datatype failure = QueryError | MakeslicePanic

text \<open>\<^verbatim>\<open>ORDER BY created_at, id\<close>: the pair, compared lexicographically.\<close>

definition row_key :: "Message \<Rightarrow> int \<times> uuid" where
  "row_key m = (m_CreatedAt m, m_ID m)"

text \<open>\<^verbatim>\<open>LIMIT n\<close>; PostgreSQL rejects a negative \<open>n\<close>.\<close>

definition sql_limit :: "int \<Rightarrow> 'a list \<Rightarrow> failure + 'a list" where
  "sql_limit n xs = (if n < 0 then Inl QueryError else Inr (take (nat n) xs))"

text \<open>Addition on Go's \<^verbatim>\<open>int\<close> (64 bits here, two's complement, wrapping).\<close>

definition add_int64 :: "int \<Rightarrow> int \<Rightarrow> int" where
  "add_int64 a b = sint (word_of_int (a + b) :: 64 word)"

text \<open>
  The scalar subquery \<^verbatim>\<open>(SELECT created_at FROM messages WHERE id = $1)\<close>: null when no
  row has that id, an error when more than one has (the primary key is the pair of id and
  tenant, so the schema alone does not exclude it).
\<close>

definition anchor_created_at :: "Message list \<Rightarrow> uuid \<Rightarrow> failure + int option" where
  "anchor_created_at rows c =
     (case filter (\<lambda>m. m_ID m = c) rows of
        [] \<Rightarrow> Inr None
      | [a] \<Rightarrow> Inr (Some (m_CreatedAt a))
      | a # b # others \<Rightarrow> Inl QueryError)"

text \<open>The query of the first page (empty cursor).\<close>

definition query_first :: "Message list \<Rightarrow> int \<Rightarrow> failure + Message list" where
  "query_first rows n = sql_limit n (sort_key row_key rows)"

text \<open>
  The query of a later page:
  \<^verbatim>\<open>WHERE created_at > (anchor) OR (created_at = (anchor) AND id > $1) ORDER BY created_at, id LIMIT $2\<close>.
  A comparison with a null anchor is null, so no row qualifies then.
\<close>

definition query_after :: "Message list \<Rightarrow> uuid \<Rightarrow> int \<Rightarrow> failure + Message list" where
  "query_after rows c n =
     (case anchor_created_at rows c of
        Inl e \<Rightarrow> Inl e
      | Inr None \<Rightarrow> sql_limit n []
      | Inr (Some t) \<Rightarrow>
          sql_limit n (sort_key row_key
            (filter (\<lambda>m. m_CreatedAt m > t \<or> (m_CreatedAt m = t \<and> m_ID m > c)) rows)))"

text \<open>
  The loop over \<^verbatim>\<open>rows.Next()\<close>: a row is appended, and its id becomes the cursor, while
  fewer than \<^verbatim>\<open>limit\<close> rows are held; the rows after that are read and dropped.
\<close>

fun scan_rows ::
  "Message list \<Rightarrow> int \<Rightarrow> Message list \<Rightarrow> uuid option \<Rightarrow> Message list \<times> uuid option" where
  "scan_rows [] limit msgs nextCursor = (msgs, nextCursor)"
| "scan_rows (m # rs) limit msgs nextCursor =
     (if int (length msgs) < limit then scan_rows rs limit (msgs @ [m]) (Some (m_ID m))
      else scan_rows rs limit msgs nextCursor)"

text \<open>
  \<^verbatim>\<open>TenantManager.GetMessages\<close> over a snapshot \<open>rows\<close> of the table. The cursor is the
  text of a UUID or the empty string: \<open>None\<close> is the empty string and \<open>Some c\<close> the
  canonical text of \<open>c\<close>, which \<^verbatim>\<open>uuid.UUID.String\<close> writes (never empty) and the store
  reads back as \<open>c\<close>. \<^verbatim>\<open>make([]Message, 0, limit)\<close> panics on a negative capacity.
  Every row of the table scans into a \<^verbatim>\<open>Message\<close> (no column is null), so the error
  branch of \<^verbatim>\<open>rows.Scan\<close> is not taken.
\<close>

definition GetMessages ::
  "Message list \<Rightarrow> uuid option \<Rightarrow> int \<Rightarrow> failure + (Message list \<times> uuid option)" where
  "GetMessages rows cursor limit =
     (case (case cursor of
              None \<Rightarrow> query_first rows (add_int64 limit 1)
            | Some c \<Rightarrow> query_after rows c (add_int64 limit 1)) of
        Inl e \<Rightarrow> Inl e
      | Inr rs \<Rightarrow>
          if limit < 0 then Inl MakeslicePanic
          else (case scan_rows rs limit [] None of
                  (msgs, nextCursor) \<Rightarrow>
                    Inr (msgs, if int (length msgs) < limit then None else nextCursor)))"

text \<open>
  The limit \<^verbatim>\<open>Handler.GetMessages\<close> passes on: 20 unless the query parameter holds a
  number from 1 to 100 (\<open>None\<close>: no parameter, or one that does not scan as a number).
\<close>

definition limit_param :: "int option \<Rightarrow> int" where
  "limit_param q =
     (case q of None \<Rightarrow> 20 | Some l \<Rightarrow> if l \<le> 0 \<or> l > 100 then 20 else l)"

text \<open>
  A client reading the whole stream: it starts from the given cursor and follows the
  returned cursor until that is empty, collecting the pages. \<open>fuel\<close> bounds the number
  of requests; \<open>None\<close> means the bound was reached before the stream ended.
\<close>

fun traverse ::
  "nat \<Rightarrow> Message list \<Rightarrow> int \<Rightarrow> uuid option \<Rightarrow> (failure + Message list) option" where
  "traverse 0 rows limit cursor = None"
| "traverse (Suc fuel) rows limit cursor =
     (case GetMessages rows cursor limit of
        Inl e \<Rightarrow> Some (Inl e)
      | Inr (msgs, None) \<Rightarrow> Some (Inr msgs)
      | Inr (msgs, Some c) \<Rightarrow>
          (case traverse fuel rows limit (Some c) of
             None \<Rightarrow> None
           | Some (Inl e) \<Rightarrow> Some (Inl e)
           | Some (Inr later) \<Rightarrow> Some (Inr (msgs @ later))))"

text \<open>
  The second read path, \<^verbatim>\<open>MessageHandler.ListMessages\<close>: the same table read in the
  opposite order, \<^verbatim>\<open>ORDER BY created_at DESC, id DESC\<close>, after the anchor by the row
  comparison \<^verbatim>\<open>(created_at, id) < (SELECT created_at, id ...)\<close>, with \<^verbatim>\<open>LIMIT limit\<close>
  itself; the cursor is the id of the last row when the page is not empty and holds
  \<open>limit\<close> rows. A failure is answered with status 500.
\<close>

definition ListMessages ::
  "Message list \<Rightarrow> uuid option \<Rightarrow> int \<Rightarrow> failure + Message list \<times> uuid option" where
  "ListMessages rows cursor limit =
     (case (case cursor of
              None \<Rightarrow> sql_limit limit (rev (sort_key row_key rows))
            | Some c \<Rightarrow>
                (case filter (\<lambda>m. m_ID m = c) rows of
                   [] \<Rightarrow> sql_limit limit []
                 | [a] \<Rightarrow>
                     sql_limit limit
                       (rev (sort_key row_key (filter (\<lambda>m. row_key m < row_key a) rows)))
                 | a # b # others \<Rightarrow> Inl QueryError)) of
        Inl e \<Rightarrow> Inl e
      | Inr messages \<Rightarrow>
          Inr (messages,
               if messages \<noteq> [] \<and> int (length messages) = limit
               then Some (m_ID (last messages)) else None))"

section \<open>Partition names\<close>

text \<open>
  \<^verbatim>\<open>strings.ReplaceAll(s, old, new)\<close> for a non-empty \<open>old\<close>: the occurrences are found
  from the left and do not overlap. (With an empty \<open>old\<close> the library inserts \<open>new\<close>
  around every character; \<^verbatim>\<open>createPartition\<close> never asks for that.)
\<close>

function ReplaceAll :: "string \<Rightarrow> string \<Rightarrow> string \<Rightarrow> string" where
  "ReplaceAll s old new =
     (if old = [] then new @ concat (map (\<lambda>c. c # new) s)
      else if s = [] then []
      else if take (length old) s = old then new @ ReplaceAll (drop (length old) s) old new
      else hd s # ReplaceAll (tl s) old new)"
  by pat_completeness auto
termination
  by (relation "measure (\<lambda>(s, old, new). length s)") (auto simp: Suc_le_eq)

declare ReplaceAll.simps [simp del]

text \<open>\<^verbatim>\<open>fmt.Sprintf("messages_tenant_%s", normalizedID)\<close> in \<^verbatim>\<open>createPartition\<close>.\<close>

definition partitionName :: "string \<Rightarrow> string" where
  "partitionName tenantID = ''messages_tenant_'' @ ReplaceAll tenantID ''-'' ''_''"

text \<open>
  The statement \<^verbatim>\<open>createPartition\<close> hands to \<^verbatim>\<open>Exec\<close>. The format is a raw string
  literal over four lines, indented with tabs; character \<open>0x22\<close> is the double quote
  around the identifier and \<open>0x27\<close> the single quote around the tenant id.
\<close>

definition createPartition :: "string \<Rightarrow> string" where
  "createPartition tenantID =
     [CHR 0x0A, CHR 0x09, CHR 0x09] @ ''CREATE TABLE IF NOT EXISTS ''
     @ [CHR 0x22] @ partitionName tenantID @ [CHR 0x22] @ '' PARTITION OF messages''
     @ [CHR 0x0A, CHR 0x09, CHR 0x09] @ ''FOR VALUES IN (''
     @ [CHR 0x27] @ tenantID @ [CHR 0x27] @ '')'' @ [CHR 0x0A, CHR 0x09]"

section \<open>Goroutines, channels and the tenant registry\<close>

text \<open>
  The part of the Go runtime the registry's operations act on: the channels made so far
  (a channel is its number), which of them are closed, the goroutines that are running,
  the \<^verbatim>\<open>tenant_workers\<close> gauge, and the broker channels opened so far with the calls
  made on the broker.
\<close>

datatype goroutine =
    Worker nat chan chan chan
  | ConsumeLoop chan chan chan

datatype broker_call =
    OpenChannel amqp_channel
  | QueueDeclare amqp_channel string bool bool bool bool "(string \<times> string) list"
  | Consume amqp_channel string string bool bool bool bool
  | Cancel amqp_channel string bool
  | QueueDelete amqp_channel string bool bool bool
  | CloseChannel amqp_channel

record runtime =
  nchans :: nat
  closed :: "chan set"
  goroutines :: "goroutine list"
  workerGauge :: "string \<rightharpoonup> int"
  namqp :: nat
  calls :: "broker_call list"

text \<open>
  What stops an operation short of returning: a panic (\<^verbatim>\<open>close\<close> of a closed channel,
  \<^verbatim>\<open>make\<close> with a negative length), or a \<^verbatim>\<open>wg.Wait()\<close> that can never return
  because a worker it waits for has no closed stop channel.
\<close>

datatype halt = ClosedChannelPanic | MakesliceLenPanic | WaitBlocked

datatype error = ChannelError | QueueDeclareError | ConsumeError

definition make_chan :: "runtime \<Rightarrow> chan \<times> runtime" where
  "make_chan rt = (nchans rt, rt\<lparr>nchans := Suc (nchans rt)\<rparr>)"

definition close_chan :: "chan \<Rightarrow> runtime \<Rightarrow> halt + runtime" where
  "close_chan ch rt =
     (if ch \<in> closed rt then Inl ClosedChannelPanic
      else Inr (rt\<lparr>closed := insert ch (closed rt)\<rparr>))"

definition gauge_set :: "string \<Rightarrow> int \<Rightarrow> runtime \<Rightarrow> runtime" where
  "gauge_set tid v rt = rt\<lparr>workerGauge := (workerGauge rt)(tid \<mapsto> v)\<rparr>"

text \<open>
  One round of the loop in \<^verbatim>\<open>startWorkers\<close>: a fresh stop channel, stored at index
  \<open>i\<close>, and a goroutine that selects on it, on the consumer's \<^verbatim>\<open>StopCh\<close> and on its
  \<^verbatim>\<open>TaskCh\<close>. The slice is made with \<open>n\<close> entries and entry \<open>i\<close> is assigned in round
  \<open>i\<close>; the model appends, which gives the same slice once the loop is over.
\<close>

fun startWorkers_round :: "nat \<Rightarrow> TenantConsumer \<times> runtime \<Rightarrow> TenantConsumer \<times> runtime" where
  "startWorkers_round i (tc, rt) =
     (case make_chan rt of
        (stopCh, rt1) \<Rightarrow>
          (tc\<lparr>workerStopChans := workerStopChans tc @ [stopCh]\<rparr>,
           rt1\<lparr>goroutines := goroutines rt1 @ [Worker i stopCh (StopCh tc) (TaskCh tc)]\<rparr>))"

definition startWorkers :: "TenantConsumer \<Rightarrow> int \<Rightarrow> runtime \<Rightarrow> halt + TenantConsumer \<times> runtime" where
  "startWorkers tc n rt =
     (let rt1 = gauge_set (ID tc) n rt in
      if n < 0 then Inl MakesliceLenPanic
      else Inr (fold startWorkers_round [0..<nat n] (tc\<lparr>workerStopChans := []\<rparr>, rt1)))"

fun close_all :: "chan list \<Rightarrow> runtime \<Rightarrow> halt + runtime" where
  "close_all [] rt = Inr rt"
| "close_all (ch # chs) rt =
     (case close_chan ch rt of Inl h \<Rightarrow> Inl h | Inr rt1 \<Rightarrow> close_all chs rt1)"

text \<open>
  The workers counted by a consumer's wait group are the goroutines started for it, which
  select on its \<^verbatim>\<open>StopCh\<close>. A worker returns, and calls \<^verbatim>\<open>wg.Done()\<close>, once one of its
  two stop channels is closed and it is between two tasks.
\<close>

fun worker_of :: "TenantConsumer \<Rightarrow> goroutine \<Rightarrow> bool" where
  "worker_of tc (Worker i stopCh tcStop taskCh) = (tcStop = StopCh tc)"
| "worker_of tc (ConsumeLoop tcStop deliveryCh taskCh) = False"

fun told_to_stop :: "chan set \<Rightarrow> goroutine \<Rightarrow> bool" where
  "told_to_stop cl (Worker i stopCh tcStop taskCh) = (stopCh \<in> cl \<or> tcStop \<in> cl)"
| "told_to_stop cl (ConsumeLoop tcStop deliveryCh taskCh) = (tcStop \<in> cl)"

definition wg_wait :: "TenantConsumer \<Rightarrow> runtime \<Rightarrow> halt + runtime" where
  "wg_wait tc rt =
     (if list_all (told_to_stop (closed rt)) (filter (worker_of tc) (goroutines rt))
      then Inr (rt\<lparr>goroutines := filter (\<lambda>g. \<not> worker_of tc g) (goroutines rt)\<rparr>)
      else Inl WaitBlocked)"

definition stopWorkers :: "TenantConsumer \<Rightarrow> runtime \<Rightarrow> halt + runtime" where
  "stopWorkers tc rt =
     (case close_all (workerStopChans tc) (gauge_set (ID tc) 0 rt) of
        Inl h \<Rightarrow> Inl h
      | Inr rt1 \<Rightarrow> wg_wait tc rt1)"

definition updateWorkers :: "TenantConsumer \<Rightarrow> int \<Rightarrow> runtime \<Rightarrow> halt + TenantConsumer \<times> runtime" where
  "updateWorkers tc newN rt =
     (let rt1 = gauge_set (ID tc) newN rt in
      if newN = int (length (workerStopChans tc)) then Inr (tc, rt1)
      else (case stopWorkers tc rt1 of
              Inl h \<Rightarrow> Inl h
            | Inr rt2 \<Rightarrow> startWorkers tc newN rt2))"

text \<open>
  \<^verbatim>\<open>TenantManager\<close>: the registry and the store pool (\<open>DB\<close> says whether the pointer is
  set). The mutex serialises the operations below, which therefore run one after another
  on the registry and the runtime state.
\<close>

record TenantManager =
  consumers :: "string \<rightharpoonup> TenantConsumer"
  DB :: bool

definition NewTenantManager :: TenantManager where
  "NewTenantManager = \<lparr>consumers = Map.empty, DB = False\<rparr>"

definition AddTenant :: "TenantManager \<Rightarrow> string \<Rightarrow> runtime \<Rightarrow> halt + TenantManager \<times> runtime" where
  "AddTenant tm tid rt =
     (case make_chan rt of (stop, rt1) \<Rightarrow>
      case make_chan rt1 of (tasks, rt2) \<Rightarrow>
        (let tc = \<lparr>ID = tid, StopCh = stop, Workers = 1, TaskCh = tasks, workerStopChans = [],
                   amqpChannel = None, amqpDeliveryCh = None, consumerTag = [],
                   manager = False\<rparr>
         in case startWorkers tc (Workers tc) rt2 of
              Inl h \<Rightarrow> Inl h
            | Inr (tc1, rt3) \<Rightarrow> Inr (tm\<lparr>consumers := (consumers tm)(tid \<mapsto> tc1)\<rparr>, rt3)))"

definition RemoveTenant :: "TenantManager \<Rightarrow> string \<Rightarrow> runtime \<Rightarrow> halt + TenantManager \<times> runtime" where
  "RemoveTenant tm tid rt =
     (case consumers tm tid of
        None \<Rightarrow> Inr (tm, rt)
      | Some c \<Rightarrow>
          (case close_chan (StopCh c) rt of
             Inl h \<Rightarrow> Inl h
           | Inr rt1 \<Rightarrow>
               (case stopWorkers c rt1 of
                  Inl h \<Rightarrow> Inl h
                | Inr rt2 \<Rightarrow> Inr (tm\<lparr>consumers := (consumers tm)(tid := None)\<rparr>, rt2))))"

definition UpdateConcurrency ::
  "TenantManager \<Rightarrow> string \<Rightarrow> int \<Rightarrow> runtime \<Rightarrow> halt + TenantManager \<times> runtime" where
  "UpdateConcurrency tm tid workers rt =
     (case consumers tm tid of
        None \<Rightarrow> Inr (tm, rt)
      | Some c \<Rightarrow>
          (case updateWorkers (c\<lparr>Workers := workers\<rparr>) workers rt of
             Inl h \<Rightarrow> Inl h
           | Inr (c1, rt1) \<Rightarrow> Inr (tm\<lparr>consumers := (consumers tm)(tid \<mapsto> c1)\<rparr>, rt1)))"

text \<open>
  The broker as \<^verbatim>\<open>AddTenantWithAMQP\<close> meets it: which of its four calls on the
  connection and the new channel return an error.
\<close>

record Connection =
  Channel_err :: bool
  DeclareDLQ_err :: bool
  DeclareQueue_err :: bool
  Consume_err :: bool

definition broker :: "broker_call \<Rightarrow> runtime \<Rightarrow> runtime" where
  "broker c rt = rt\<lparr>calls := calls rt @ [c]\<rparr>"

text \<open>
  \<^verbatim>\<open>AddTenantWithAMQP\<close>. The registry is not consulted before the consumer is built: the
  new consumer is stored under the id whatever was there. The result is the returned
  error (\<open>None\<close> is nil) with the registry and the runtime state after the call.
\<close>

definition AddTenantWithAMQP ::
  "TenantManager \<Rightarrow> string \<Rightarrow> Connection \<Rightarrow> runtime
     \<Rightarrow> halt + error option \<times> TenantManager \<times> runtime" where
  "AddTenantWithAMQP tm tid conn rt =
     (if Channel_err conn then Inr (Some ChannelError, tm, rt)
      else
        let ch = namqp rt;
            rt1 = broker (OpenChannel ch) (rt\<lparr>namqp := Suc ch\<rparr>);
            rt2 = broker (QueueDeclare ch (dlqName tid) True False False False []) rt1
        in if DeclareDLQ_err conn then Inr (Some QueueDeclareError, tm, broker (CloseChannel ch) rt2)
        else
          let args = [(''x-dead-letter-exchange'', []),
                      (''x-dead-letter-routing-key'', dlqName tid)];
              rt3 = broker (QueueDeclare ch (queueName tid) True False False False args) rt2
          in if DeclareQueue_err conn
             then Inr (Some QueueDeclareError, tm, broker (CloseChannel ch) rt3)
          else
            let tag = ''consumer_'' @ tid;
                rt4 = broker (Consume ch (queueName tid) tag False False False False) rt3
            in if Consume_err conn then Inr (Some ConsumeError, tm, broker (CloseChannel ch) rt4)
            else
              (case make_chan rt4 of (deliveryCh, rt5) \<Rightarrow>
               case make_chan rt5 of (stop, rt6) \<Rightarrow>
               case make_chan rt6 of (tasks, rt7) \<Rightarrow>
                 (let tc = \<lparr>ID = tid, StopCh = stop, Workers = 1, TaskCh = tasks,
                            workerStopChans = [], amqpChannel = Some ch,
                            amqpDeliveryCh = Some deliveryCh, consumerTag = tag,
                            manager = True\<rparr>
                  in case startWorkers tc (Workers tc) rt7 of
                       Inl h \<Rightarrow> Inl h
                     | Inr (tc1, rt8) \<Rightarrow>
                         Inr (None, tm\<lparr>consumers := (consumers tm)(tid \<mapsto> tc1)\<rparr>,
                              rt8\<lparr>goroutines :=
                                    goroutines rt8 @ [ConsumeLoop stop deliveryCh tasks]\<rparr>))))"

definition RemoveTenantWithAMQP ::
  "TenantManager \<Rightarrow> string \<Rightarrow> runtime \<Rightarrow> halt + TenantManager \<times> runtime" where
  "RemoveTenantWithAMQP tm tid rt =
     (case consumers tm tid of
        None \<Rightarrow> Inr (tm, rt)
      | Some c \<Rightarrow>
          (case close_chan (StopCh c) rt of
             Inl h \<Rightarrow> Inl h
           | Inr rt1 \<Rightarrow>
               (case stopWorkers c rt1 of
                  Inl h \<Rightarrow> Inl h
                | Inr rt2 \<Rightarrow>
                    Inr (tm\<lparr>consumers := (consumers tm)(tid := None)\<rparr>,
                         (case amqpChannel c of
                            None \<Rightarrow> rt2
                          | Some ch \<Rightarrow>
                              broker (CloseChannel ch)
                                (broker (QueueDelete ch (queueName tid) False False False)
                                  (broker (Cancel ch (consumerTag c) False) rt2)))))))"


definition Handler_CreateTenant ::
  "TenantManager \<Rightarrow> string \<Rightarrow> Connection \<Rightarrow> runtime \<Rightarrow> halt + nat \<times> TenantManager \<times> runtime" where
  "Handler_CreateTenant tm tid conn rt =
     (if tid = [] then Inr (400, tm, rt)
      else (case AddTenantWithAMQP tm tid conn rt of
              Inl h \<Rightarrow> Inl h
            | Inr (Some e, tm1, rt1) \<Rightarrow> Inr (500, tm1, rt1)
            | Inr (None, tm1, rt1) \<Rightarrow> Inr (201, tm1, rt1)))"

section \<open>The dispatcher and the worker as loops over what their selects yield\<close>

text \<open>
  A goroutine blocked in \<^verbatim>\<open>select\<close> goes on with whichever case the runtime picks among
  the ready ones. The sequence of picks is the input of the two loops below; a loop whose
  sequence is used up is parked in its \<^verbatim>\<open>select\<close>.

  \<^verbatim>\<open>consumeLoop\<close>: the outer select yields the stop signal or a receive from the delivery
  channel (\<open>None\<close>: the channel is closed); after a delivery the inner select either hands
  it to the task channel or yields the stop signal. The result is the deliveries received
  and the tasks handed over.
\<close>

datatype hand_over = Sent | StopWhileSending

datatype dispatch_select = DispatchStop | Received "Delivery option" hand_over

fun consumeLoop :: "dispatch_select list \<Rightarrow> Delivery list \<times> task list" where
  "consumeLoop [] = ([], [])"
| "consumeLoop (DispatchStop # sels) = ([], [])"
| "consumeLoop (Received None h # sels) = ([], [])"
| "consumeLoop (Received (Some msg) Sent # sels) =
     (case consumeLoop sels of (seen, sent) \<Rightarrow> (msg # seen, DeliveryTask msg # sent))"
| "consumeLoop (Received (Some msg) StopWhileSending # sels) = ([msg], [])"

text \<open>
  The loop of a worker goroutine: it returns on either stop signal and on a closed task
  channel, and handles a received task before it selects again. The outcome of the store
  and broker calls is given per delivery tag.
\<close>

datatype worker_select = StopSignal | TenantStopSignal | TaskReceived "task option"

fun task_tag :: "task \<Rightarrow> nat" where
  "task_tag (DeliveryTask msg) = DeliveryTag msg"
| "task_tag OtherTask = 0"

fun worker_loop ::
  "TenantConsumer \<Rightarrow> bool \<Rightarrow> (nat \<Rightarrow> nat \<Rightarrow> bool) \<Rightarrow> (nat \<Rightarrow> bool) \<Rightarrow> worker_select list
     \<Rightarrow> event list" where
  "worker_loop tc db ins_err pub_err [] = []"
| "worker_loop tc db ins_err pub_err (StopSignal # sels) = []"
| "worker_loop tc db ins_err pub_err (TenantStopSignal # sels) = []"
| "worker_loop tc db ins_err pub_err (TaskReceived None # sels) = []"
| "worker_loop tc db ins_err pub_err (TaskReceived (Some t) # sels) =
     process_task tc db (ins_err (task_tag t)) (pub_err (task_tag t)) t
     @ worker_loop tc db ins_err pub_err sels"

fun settles :: "nat \<Rightarrow> event \<Rightarrow> bool" where
  "settles tag (Ack t m) = (t = tag)"
| "settles tag (Nack t m r) = (t = tag)"
| "settles tag e = False"

section \<open>States the registry can reach\<close>

text \<open>The runtime state of a process that has started no goroutine and made no channel.\<close>

definition rt0 :: runtime where
  "rt0 = \<lparr>nchans = 0, closed = {}, goroutines = [], workerGauge = Map.empty, namqp = 0, calls = []\<rparr>"

text \<open>
  The states of registry and runtime that the exported operations lead to, from a new
  manager (whose \<^verbatim>\<open>DB\<close> the application may have set) and through calls that return.
\<close>

inductive reachable :: "TenantManager \<Rightarrow> runtime \<Rightarrow> bool" where
  start: "reachable (NewTenantManager\<lparr>DB := db\<rparr>) rt0"
| add: "reachable tm rt \<Longrightarrow> AddTenant tm tid rt = Inr (tm', rt') \<Longrightarrow> reachable tm' rt'"
| add_amqp: "reachable tm rt \<Longrightarrow> AddTenantWithAMQP tm tid conn rt = Inr (e, tm', rt')
    \<Longrightarrow> reachable tm' rt'"
| remove: "reachable tm rt \<Longrightarrow> RemoveTenant tm tid rt = Inr (tm', rt') \<Longrightarrow> reachable tm' rt'"
| remove_amqp: "reachable tm rt \<Longrightarrow> RemoveTenantWithAMQP tm tid rt = Inr (tm', rt')
    \<Longrightarrow> reachable tm' rt'"
| update: "reachable tm rt \<Longrightarrow> UpdateConcurrency tm tid n rt = Inr (tm', rt')
    \<Longrightarrow> reachable tm' rt'"

text \<open>
  What holds of a registered consumer's worker pool in every such state: its stop channels
  are distinct, allocated and open, so is its \<^verbatim>\<open>StopCh\<close>, and the goroutines started
  for it are exactly one worker per stop channel, in order.
\<close>

definition pool_ok :: "runtime \<Rightarrow> TenantConsumer \<Rightarrow> bool" where
  "pool_ok rt c =
     (distinct (workerStopChans c)
      \<and> set (workerStopChans c) \<inter> closed rt = {}
      \<and> StopCh c \<notin> closed rt
      \<and> StopCh c \<notin> set (workerStopChans c)
      \<and> StopCh c < nchans rt
      \<and> (\<forall>ch\<in>closed rt. ch < nchans rt)
      \<and> (\<forall>ch\<in>set (workerStopChans c). ch < nchans rt)
      \<and> filter (worker_of c) (goroutines rt)
          = map (\<lambda>(i, ch). Worker i ch (StopCh c) (TaskCh c)) (enumerate 0 (workerStopChans c)))"

text \<open>The \<^verbatim>\<open>StopCh\<close> a goroutine selects on, which ties it to its consumer.\<close>

fun stop_of :: "goroutine \<Rightarrow> chan" where
  "stop_of (Worker i stopCh tcStop taskCh) = tcStop"
| "stop_of (ConsumeLoop tcStop deliveryCh taskCh) = tcStop"

text \<open>
  The invariant of registry and runtime: every channel in use has been allocated, every
  registered consumer has a sound pool, and two registered consumers share no channel.
\<close>

definition registry_ok :: "TenantManager \<Rightarrow> runtime \<Rightarrow> bool" where
  "registry_ok tm rt =
     ((\<forall>g\<in>set (goroutines rt). stop_of g < nchans rt)
      \<and> (\<forall>ch\<in>closed rt. ch < nchans rt)
      \<and> (\<forall>tid c. consumers tm tid = Some c \<longrightarrow> pool_ok rt c)
      \<and> (\<forall>tid tid' c c'. consumers tm tid = Some c \<and> consumers tm tid' = Some c' \<and> tid \<noteq> tid'
            \<longrightarrow> StopCh c \<noteq> StopCh c' \<and> StopCh c' \<notin> set (workerStopChans c)
               \<and> set (workerStopChans c) \<inter> set (workerStopChans c') = {}))"

text \<open>A consumer that inserts into the store also has a broker channel.\<close>

definition wired :: "TenantConsumer \<Rightarrow> bool" where
  "wired c = (manager c \<longrightarrow> amqpChannel c \<noteq> None)"

text \<open>
  Abbreviations for the results of the operations: a consumer and runtime after
  \<^verbatim>\<open>stopWorkers\<close> followed by \<^verbatim>\<open>startWorkers(n)\<close>, the runtime after a consumer is
  stopped for removal, and the broker calls and consumer of a successful
  \<^verbatim>\<open>AddTenantWithAMQP\<close>.
\<close>

definition restarted :: "TenantConsumer \<Rightarrow> int \<Rightarrow> runtime \<Rightarrow> TenantConsumer \<times> runtime" where
  "restarted c n rt =
     (c\<lparr>workerStopChans := [nchans rt..<nchans rt + nat n]\<rparr>,
      rt\<lparr>nchans := nchans rt + nat n,
         closed := closed rt \<union> set (workerStopChans c),
         goroutines := filter (\<lambda>g. \<not> worker_of c g) (goroutines rt)
           @ map (\<lambda>i. Worker i (nchans rt + i) (StopCh c) (TaskCh c)) [0..<nat n],
         workerGauge := (workerGauge rt)(ID c \<mapsto> n)\<rparr>)"

definition stopped :: "TenantConsumer \<Rightarrow> runtime \<Rightarrow> runtime" where
  "stopped c rt =
     rt\<lparr>closed := insert (StopCh c) (closed rt) \<union> set (workerStopChans c),
        goroutines := filter (\<lambda>g. \<not> worker_of c g) (goroutines rt),
        workerGauge := (workerGauge rt)(ID c \<mapsto> 0)\<rparr>"

definition amqp_calls :: "string \<Rightarrow> amqp_channel \<Rightarrow> broker_call list" where
  "amqp_calls tid ch =
     [OpenChannel ch,
      QueueDeclare ch (dlqName tid) True False False False [],
      QueueDeclare ch (queueName tid) True False False False
        [(''x-dead-letter-exchange'', []), (''x-dead-letter-routing-key'', dlqName tid)],
      Consume ch (queueName tid) (''consumer_'' @ tid) False False False False]"

definition amqp_consumer :: "string \<Rightarrow> runtime \<Rightarrow> TenantConsumer" where
  "amqp_consumer tid rt =
     \<lparr>ID = tid, StopCh = nchans rt + 1, Workers = 1, TaskCh = nchans rt + 2,
      workerStopChans = [nchans rt + 3], amqpChannel = Some (namqp rt),
      amqpDeliveryCh = Some (nchans rt), consumerTag = ''consumer_'' @ tid, manager = True\<rparr>"

text \<open>
  A page of \<open>n\<close> rows cut from the ordered rows \<open>R\<close> that a query selects, with the
  cursor \<^verbatim>\<open>GetMessages\<close> returns with it.
\<close>

definition page :: "nat \<Rightarrow> Message list \<Rightarrow> Message list \<times> uuid option" where
  "page n R = (take n R, if 0 < n \<and> n \<le> length R then Some (m_ID (R ! (n - 1))) else None)"

text \<open>
  The deliveries a worker takes from the task channel before its loop returns, and how
  each is settled: a nack with requeue when all three inserts and the publish to the
  dead-letter queue failed, an ack otherwise.
\<close>

fun dequeued :: "worker_select list \<Rightarrow> Delivery list" where
  "dequeued [] = []"
| "dequeued (StopSignal # sels) = []"
| "dequeued (TenantStopSignal # sels) = []"
| "dequeued (TaskReceived None # sels) = []"
| "dequeued (TaskReceived (Some (DeliveryTask msg)) # sels) = msg # dequeued sels"
| "dequeued (TaskReceived (Some OtherTask) # sels) = dequeued sels"

definition settlement ::
  "TenantConsumer \<Rightarrow> bool \<Rightarrow> (nat \<Rightarrow> nat \<Rightarrow> bool) \<Rightarrow> (nat \<Rightarrow> bool) \<Rightarrow> Delivery \<Rightarrow> event" where
  "settlement tc db ins_err pub_err msg =
     (if manager tc \<and> db \<and> ins_err (DeliveryTag msg) 1 \<and> ins_err (DeliveryTag msg) 2
         \<and> ins_err (DeliveryTag msg) 3 \<and> pub_err (DeliveryTag msg)
      then Nack (DeliveryTag msg) False True
      else Ack (DeliveryTag msg) False)"

section \<open>Sample values\<close>

text \<open>
  A broker on which every call succeeds; the consumer, registry and runtime after tenant
  \<open>t1\<close> is created on a new manager, after it is created a second time, and after its
  pool is resized to no worker; two deliveries and a small table.
\<close>

definition conn_ok :: Connection where
  "conn_ok = \<lparr>Channel_err = False, DeclareDLQ_err = False, DeclareQueue_err = False,
     Consume_err = False\<rparr>"

definition tc_a :: TenantConsumer where
  "tc_a = \<lparr>ID = ''t1'', StopCh = 1, Workers = 1, TaskCh = 2, workerStopChans = [3],
     amqpChannel = Some 0, amqpDeliveryCh = Some 0, consumerTag = ''consumer_t1'', manager = True\<rparr>"

definition tm_a :: TenantManager where
  "tm_a = \<lparr>consumers = [''t1'' \<mapsto> tc_a], DB = True\<rparr>"

definition rt_a :: runtime where
  "rt_a = \<lparr>nchans = 4, closed = {}, goroutines = [Worker 0 3 1 2, ConsumeLoop 1 0 2],
     workerGauge = [''t1'' \<mapsto> 1], namqp = 1,
     calls = [OpenChannel 0,
       QueueDeclare 0 ''tenant_t1_dlq'' True False False False [],
       QueueDeclare 0 ''tenant_t1_queue'' True False False False
         [(''x-dead-letter-exchange'', []), (''x-dead-letter-routing-key'', ''tenant_t1_dlq'')],
       Consume 0 ''tenant_t1_queue'' ''consumer_t1'' False False False False]\<rparr>"

definition tc_b :: TenantConsumer where
  "tc_b = \<lparr>ID = ''t1'', StopCh = 5, Workers = 1, TaskCh = 6, workerStopChans = [7],
     amqpChannel = Some 1, amqpDeliveryCh = Some 4, consumerTag = ''consumer_t1'', manager = True\<rparr>"

definition tm_b :: TenantManager where
  "tm_b = \<lparr>consumers = [''t1'' \<mapsto> tc_b], DB = True\<rparr>"

definition rt_b :: runtime where
  "rt_b = \<lparr>nchans = 8, closed = {},
     goroutines = [Worker 0 3 1 2, ConsumeLoop 1 0 2, Worker 0 7 5 6, ConsumeLoop 5 4 6],
     workerGauge = [''t1'' \<mapsto> 1], namqp = 2,
     calls = calls rt_a @ [OpenChannel 1,
       QueueDeclare 1 ''tenant_t1_dlq'' True False False False [],
       QueueDeclare 1 ''tenant_t1_queue'' True False False False
         [(''x-dead-letter-exchange'', []), (''x-dead-letter-routing-key'', ''tenant_t1_dlq'')],
       Consume 1 ''tenant_t1_queue'' ''consumer_t1'' False False False False]\<rparr>"



definition dlv5 :: Delivery where
  "dlv5 = \<lparr>Body = ''{}'', DeliveryTag = 5\<rparr>"

definition dlv6 :: Delivery where
  "dlv6 = \<lparr>Body = ''[]'', DeliveryTag = 6\<rparr>"

definition rows3 :: "Message list" where
  "rows3 =
    [\<lparr>m_ID = 7, m_TenantID = ''a'', m_Payload = ''{}'', m_CreatedAt = 20\<rparr>,
     \<lparr>m_ID = 9, m_TenantID = ''b'', m_Payload = ''{}'', m_CreatedAt = 10\<rparr>,
     \<lparr>m_ID = 3, m_TenantID = ''a'', m_Payload = ''{}'', m_CreatedAt = 20\<rparr>,
     \<lparr>m_ID = 5, m_TenantID = ''a'', m_Payload = ''{}'', m_CreatedAt = 30\<rparr>]"

section \<open>Properties of the retry loop\<close>

lemma retry_loop_past_max: "retry_loop tc db ins_err pub_err msg 4 = []"
  by (subst retry_loop.simps) (simp add: maxRetry_def)

lemma retry_loop_from_3:
  "retry_loop tc db ins_err pub_err msg 3 =
     (if manager tc \<and> db then
        (if \<not> ins_err 3 then
           [InsertMessage (ID tc) (Body msg), MessagesTotalInc (ID tc), Ack (DeliveryTag msg) False]
         else InsertMessage (ID tc) (Body msg) # sendToDLQ tc pub_err msg @ [Sleep (3 * Second)])
      else [MessagesTotalInc (ID tc), Ack (DeliveryTag msg) False])"
  by (subst retry_loop.simps) (simp add: maxRetry_def retry_loop_past_max)

lemma retry_loop_from_2:
  "retry_loop tc db ins_err pub_err msg 2 =
     (if manager tc \<and> db then
        (if \<not> ins_err 2 then
           [InsertMessage (ID tc) (Body msg), MessagesTotalInc (ID tc), Ack (DeliveryTag msg) False]
         else [InsertMessage (ID tc) (Body msg), Sleep (2 * Second)] @
           retry_loop tc db ins_err pub_err msg 3)
      else [MessagesTotalInc (ID tc), Ack (DeliveryTag msg) False])"
  by (subst retry_loop.simps) (simp add: maxRetry_def)

lemma process_delivery_trace:
  "process_task tc db ins_err pub_err (DeliveryTask msg) =
     (if manager tc \<and> db then
        (if \<not> ins_err 1 then
           [InsertMessage (ID tc) (Body msg), MessagesTotalInc (ID tc), Ack (DeliveryTag msg) False]
         else [InsertMessage (ID tc) (Body msg), Sleep Second] @
           (if \<not> ins_err 2 then
              [InsertMessage (ID tc) (Body msg), MessagesTotalInc (ID tc), Ack (DeliveryTag msg) False]
            else [InsertMessage (ID tc) (Body msg), Sleep (2 * Second)] @
              (if \<not> ins_err 3 then
                 [InsertMessage (ID tc) (Body msg), MessagesTotalInc (ID tc), Ack (DeliveryTag msg) False]
               else InsertMessage (ID tc) (Body msg) # sendToDLQ tc pub_err msg @ [Sleep (3 * Second)])))
      else [MessagesTotalInc (ID tc), Ack (DeliveryTag msg) False])"
  unfolding process_task.simps
  by (subst retry_loop.simps) (simp add: maxRetry_def retry_loop_from_2 retry_loop_from_3 del: One_nat_def)

lemma sendToDLQ_no_insert: "filter is_insert (sendToDLQ tc pub_err msg) = []"
  by (simp add: sendToDLQ_def split: option.splits)



lemma settle_of_delivery:
  assumes "wired tc"
  shows "filter is_settle (process_task tc db ie pe (DeliveryTask msg)) =
     [if manager tc \<and> db \<and> ie 1 \<and> ie 2 \<and> ie 3 \<and> pe then Nack (DeliveryTag msg) False True
      else Ack (DeliveryTag msg) False]"
  using assms
  by (auto simp add: process_delivery_trace sendToDLQ_def wired_def split: option.splits)

lemma worker_loop_settles:
  assumes "wired tc"
  shows "filter is_settle (worker_loop tc db ins_err pub_err sels)
           = map (settlement tc db ins_err pub_err) (dequeued sels)"
proof (induction sels rule: dequeued.induct)
  case (5 msg sels)
  then show ?case
    by (simp add: settle_of_delivery [OF assms] settlement_def)
next
  case (6 sels)
  then show ?case by (simp add: process_task.simps(2))
qed simp_all

text \<open>
  C3. For every delivery a worker handles, the store insert is attempted at most
  \<open>maxRetry\<close> = 3 times; when the trace has a publish to the dead-letter queue, exactly
  \<open>maxRetry\<close> inserts come before it; and when the attempts 1 to \<open>a\<close> have all failed,
  with \<open>a < maxRetry\<close>, the trace starts with insert, sleep of 1 second, ..., insert,
  sleep of \<open>a\<close> seconds, and the next insert follows at once.
\<close>

theorem retry_bound:
  "length (filter is_insert (process_task tc db ins_err pub_err (DeliveryTask msg))) \<le> maxRetry
   \<and> (filter is_publish (process_task tc db ins_err pub_err (DeliveryTask msg)) \<noteq> [] \<longrightarrow>
        length (filter is_insert
          (takeWhile (\<lambda>e. \<not> is_publish e) (process_task tc db ins_err pub_err (DeliveryTask msg)))) = maxRetry)
   \<and> (\<forall>a. 1 \<le> a \<and> a < maxRetry \<and> manager tc \<and> db \<and> (\<forall>k. 1 \<le> k \<and> k \<le> a \<longrightarrow> ins_err k) \<longrightarrow>
        (\<exists>post. process_task tc db ins_err pub_err (DeliveryTask msg) =
           concat (map (\<lambda>k. [InsertMessage (ID tc) (Body msg), Sleep (int k * Second)]) [1..<Suc a])
           @ InsertMessage (ID tc) (Body msg) # post))"
proof (intro conjI allI impI)
  show "length (filter is_insert (process_task tc db ins_err pub_err (DeliveryTask msg))) \<le> maxRetry"
    by (simp add: process_delivery_trace sendToDLQ_no_insert maxRetry_def)
next
  assume "filter is_publish (process_task tc db ins_err pub_err (DeliveryTask msg)) \<noteq> []"
  then show "length (filter is_insert
          (takeWhile (\<lambda>e. \<not> is_publish e) (process_task tc db ins_err pub_err (DeliveryTask msg)))) = maxRetry"
    by (simp add: process_delivery_trace sendToDLQ_def maxRetry_def split: if_splits option.splits)
next
  fix a
  assume h: "1 \<le> a \<and> a < maxRetry \<and> manager tc \<and> db \<and> (\<forall>k. 1 \<le> k \<and> k \<le> a \<longrightarrow> ins_err k)"
  then have "a = 1 \<or> a = 2" by (auto simp: maxRetry_def)
  then show "\<exists>post. process_task tc db ins_err pub_err (DeliveryTask msg) =
           concat (map (\<lambda>k. [InsertMessage (ID tc) (Body msg), Sleep (int k * Second)]) [1..<Suc a])
           @ InsertMessage (ID tc) (Body msg) # post"
  proof
    assume a: "a = 1"
    with h have "ins_err 1" by simp
    with h a show ?thesis by (simp add: process_delivery_trace)
  next
    assume a: "a = 2"
    with h have "ins_err 1" "ins_err 2" by simp_all
    moreover have "[1..<Suc 2] = [1, 2]" by (simp add: upt_rec)
    ultimately show ?thesis using h a by (simp add: process_delivery_trace)
  qed
qed

theorem retry_bound_witness:
  "length (filter is_insert (process_task tc_a True (\<lambda>k. True) False (DeliveryTask \<lparr>Body = ''{}'', DeliveryTag = 5\<rparr>))) = 3
   \<and> filter is_publish (process_task tc_a True (\<lambda>k. True) False (DeliveryTask \<lparr>Body = ''{}'', DeliveryTag = 5\<rparr>)) \<noteq> []
   \<and> length (filter is_insert (takeWhile (\<lambda>e. \<not> is_publish e)
        (process_task tc_a True (\<lambda>k. True) False (DeliveryTask \<lparr>Body = ''{}'', DeliveryTag = 5\<rparr>)))) = maxRetry
   \<and> (\<exists>post. process_task tc_a True (\<lambda>k. True) False (DeliveryTask \<lparr>Body = ''{}'', DeliveryTag = 5\<rparr>) =
        [InsertMessage ''t1'' ''{}'', Sleep 1000000000, InsertMessage ''t1'' ''{}'', Sleep 2000000000,
         InsertMessage ''t1'' ''{}''] @ post)"
proof -
  note r = retry_bound [of tc_a True "\<lambda>k. True" False "\<lparr>Body = ''{}'', DeliveryTag = 5\<rparr>"]
  have e: "process_task tc_a True (\<lambda>k. True) False (DeliveryTask \<lparr>Body = ''{}'', DeliveryTag = 5\<rparr>) =
    [InsertMessage ''t1'' ''{}'', Sleep 1000000000, InsertMessage ''t1'' ''{}'', Sleep 2000000000,
     InsertMessage ''t1'' ''{}'',
     Publish 0 '''' ''tenant_t1_dlq'' False False
       \<lparr>ContentType = ''application/json'', PubBody = ''{}'', DeliveryMode = 2\<rparr>,
     Ack 5 False, Sleep 3000000000]"
    by (simp add: process_delivery_trace tc_a_def sendToDLQ_def dlqName_def Second_def Persistent_def)
  have p: "filter is_publish (process_task tc_a True (\<lambda>k. True) False (DeliveryTask \<lparr>Body = ''{}'', DeliveryTag = 5\<rparr>)) \<noteq> []"
    by (simp add: e)
  from r p have "length (filter is_insert (takeWhile (\<lambda>e. \<not> is_publish e)
        (process_task tc_a True (\<lambda>k. True) False (DeliveryTask \<lparr>Body = ''{}'', DeliveryTag = 5\<rparr>)))) = maxRetry"
    by blast
  then show ?thesis using p by (simp add: e)
qed

text \<open>
  C4. When the insert has failed on all \<open>maxRetry\<close> attempts of a consumer with a broker
  channel, the third insert is followed by the publish of the raw body, as a persistent
  JSON message, to \<^verbatim>\<open>tenant_{id}_dlq\<close> through the default exchange; then the delivery is
  acked (multiple = false) when the publish succeeded and nacked (multiple = false,
  requeue = true) when it failed.
\<close>

theorem dlq_after_final_attempt:
  assumes "manager tc" and "db" and "\<forall>k. 1 \<le> k \<and> k \<le> maxRetry \<longrightarrow> ins_err k"
    and "amqpChannel tc = Some ch"
  shows "process_task tc db ins_err pub_err (DeliveryTask msg) =
     [InsertMessage (ID tc) (Body msg), Sleep (1 * Second),
      InsertMessage (ID tc) (Body msg), Sleep (2 * Second),
      InsertMessage (ID tc) (Body msg),
      Publish ch '''' (''tenant_'' @ ID tc @ ''_dlq'') False False
        \<lparr>ContentType = ''application/json'', PubBody = Body msg, DeliveryMode = Persistent\<rparr>,
      (if pub_err then Nack (DeliveryTag msg) False True else Ack (DeliveryTag msg) False),
      Sleep (3 * Second)]"
proof -
  from assms(3) have "ins_err 1" "ins_err 2" "ins_err 3" by (simp_all add: maxRetry_def)
  with assms show ?thesis
    by (simp add: process_delivery_trace sendToDLQ_def dlqName_def)
qed

theorem dlq_after_final_attempt_witness:
  "process_task tc_a True (\<lambda>k. True) True (DeliveryTask dlv5) =
     [InsertMessage ''t1'' ''{}'', Sleep 1000000000, InsertMessage ''t1'' ''{}'', Sleep 2000000000,
      InsertMessage ''t1'' ''{}'',
      Publish 0 [] ''tenant_t1_dlq'' False False
        \<lparr>ContentType = ''application/json'', PubBody = ''{}'', DeliveryMode = 2\<rparr>,
      Nack 5 False True, Sleep 3000000000]"
  using dlq_after_final_attempt [of tc_a True "\<lambda>k. True" 0 True dlv5]
  by (simp add: tc_a_def dlv5_def Second_def Persistent_def)

section \<open>Properties of the paginated read\<close>

lemma add_int64_succ:
  assumes "0 \<le> l" and "l < 2 ^ 63 - 1"
  shows "add_int64 l 1 = l + 1"
proof -
  have "signed_take_bit 63 (l + 1) = l + 1"
    using assms by (intro signed_take_bit_int_eq_self) simp_all
  then show ?thesis
    unfolding add_int64_def sint_sbintrunc' by simp
qed

lemma scan_rows_take:
  "scan_rows rs (int n) msgs nc =
     (msgs @ take (n - length msgs) rs,
      if take (n - length msgs) rs = [] then nc
      else Some (m_ID (last (take (n - length msgs) rs))))"
proof (induction rs arbitrary: msgs nc)
  case Nil
  then show ?case by simp
next
  case (Cons m rs)
  show ?case
  proof (cases "length msgs < n")
    case True
    then obtain d where d: "n - length msgs = Suc d"
      by (metis Suc_diff_Suc)
    then have d': "n - Suc (length msgs) = d" by simp
    from True d d' show ?thesis
      by (simp add: Cons.IH)
  next
    case False
    then show ?thesis by (simp add: Cons.IH)
  qed
qed

lemma scan_page:
  assumes "scan_rows (take (Suc n) R) (int n) [] None = (msgs, nc)"
  shows "(msgs, if int (length msgs) < int n then None else nc) = page n R"
proof -
  from assms have s: "msgs = take n (take (Suc n) R)"
    "nc = (if take n (take (Suc n) R) = [] then None
           else Some (m_ID (last (take n (take (Suc n) R)))))"
    by (auto simp add: scan_rows_take cong: if_cong)
  have t: "take n (take (Suc n) R) = take n R" by (simp add: min_def)
  show ?thesis
  proof (cases "0 < n \<and> n \<le> length R")
    case True
    then have "take n R \<noteq> []" by auto
    moreover from True have "length (take n R) = n" by simp
    ultimately have "last (take n R) = take n R ! (n - 1)"
      by (simp add: last_conv_nth)
    also from True have "\<dots> = R ! (n - 1)" by simp
    finally have "last (take n R) = R ! (n - 1)" .
    with True s [unfolded t] show ?thesis
      by (auto simp add: page_def)
  next
    case False
    with s [unfolded t] show ?thesis
      by (auto simp add: page_def)
  qed
qed

lemma GetMessages_first:
  assumes "0 \<le> limit" and "limit < 2 ^ 63 - 1"
  shows "GetMessages rows None limit = Inr (page (nat limit) (sort_key row_key rows))"
proof -
  obtain n where n: "limit = int n" using assms(1) by (metis nat_0_le)
  obtain ms nc where sc: "scan_rows (take (Suc n) (sort_key row_key rows)) (int n) [] None = (ms, nc)"
    by (cases "scan_rows (take (Suc n) (sort_key row_key rows)) (int n) [] None")
  have "nat (int n + 1) = Suc n" by simp
  with assms n sc scan_page [OF sc] show ?thesis
    by (simp add: GetMessages_def query_first_def sql_limit_def add_int64_succ)
qed

lemma filter_id_single:
  "distinct (map m_ID rows) \<Longrightarrow> a \<in> set rows \<Longrightarrow> filter (\<lambda>m. m_ID m = m_ID a) rows = [a]"
proof (induction rows)
  case Nil
  then show ?case by simp
next
  case (Cons r rows)
  show ?case
  proof (cases "r = a")
    case True
    with Cons.prems have "\<forall>m\<in>set rows. m_ID m \<noteq> m_ID a" by (auto simp: image_iff)
    then have "filter (\<lambda>m. m_ID m = m_ID a) rows = []" by (simp add: filter_empty_conv)
    with True show ?thesis by simp
  next
    case False
    with Cons.prems have "a \<in> set rows" and "m_ID r \<noteq> m_ID a" by (auto simp: image_iff)
    with Cons show ?thesis by simp
  qed
qed

lemma after_is_key_less:
  "(m_CreatedAt m > m_CreatedAt a \<or> (m_CreatedAt m = m_CreatedAt a \<and> m_ID m > m_ID a))
     = (row_key a < row_key m)"
  by (auto simp: row_key_def less_prod_def)

lemma filter_above_nth:
  "sorted_wrt (\<lambda>x y. f x < f y) xs \<Longrightarrow> k < length xs \<Longrightarrow>
     filter (\<lambda>m. f (xs ! k) < (f m :: 'b :: linorder)) xs = drop (Suc k) xs"
proof (induction xs arbitrary: k)
  case Nil
  then show ?case by simp
next
  case (Cons x xs)
  show ?case
  proof (cases k)
    case 0
    from Cons.prems have "\<forall>y\<in>set xs. f x < f y" by simp
    then have "filter (\<lambda>m. f x < f m) xs = xs" by (simp add: filter_id_conv)
    with 0 show ?thesis by simp
  next
    case (Suc j)
    with Cons.prems have j: "j < length xs" by simp
    with Cons.prems have "f x < f (xs ! j)" by simp
    then have "\<not> f (xs ! j) < f x" by simp
    with Cons.IH [of j] Cons.prems j Suc show ?thesis by simp
  qed
qed

lemma distinct_keys: "distinct (map m_ID rows) \<Longrightarrow> distinct (map row_key rows)"
proof -
  assume "distinct (map m_ID rows)"
  moreover have "map m_ID rows = map snd (map row_key rows)" by (simp add: row_key_def)
  ultimately have "distinct (map snd (map row_key rows))" by simp
  then show ?thesis using distinct_map [of snd "map row_key rows"] by blast
qed

lemma sorted_rows_strict:
  assumes "distinct (map m_ID rows)"
  shows "sorted_wrt (\<lambda>x y. row_key x < row_key y) (sort_key row_key rows)"
proof -
  have "mset (map row_key (sort_key row_key rows)) = mset (map row_key rows)" by simp
  then have "distinct (map row_key (sort_key row_key rows))"
    using distinct_keys [OF assms] by (metis mset_eq_imp_distinct_iff)
  then have "sorted_wrt (<) (map row_key (sort_key row_key rows))"
    by (simp add: strict_sorted_iff)
  then show ?thesis by (simp add: sorted_wrt_map)
qed

lemma GetMessages_after:
  assumes d: "distinct (map m_ID rows)" and l: "0 \<le> limit" "limit < 2 ^ 63 - 1"
    and k: "k < length rows"
  shows "GetMessages rows (Some (m_ID (sort_key row_key rows ! k))) limit =
           Inr (page (nat limit) (drop (Suc k) (sort_key row_key rows)))"
proof -
  let ?S = "sort_key row_key rows"
  let ?a = "?S ! k"
  obtain n where n: "limit = int n" using l(1) by (metis nat_0_le)
  have kS: "k < length ?S" using k by simp
  then have "?a \<in> set ?S" by (rule nth_mem)
  then have a: "?a \<in> set rows" by simp
  have anchor: "anchor_created_at rows (m_ID ?a) = Inr (Some (m_CreatedAt ?a))"
    by (simp add: anchor_created_at_def filter_id_single [OF d a])
  have "sort_key row_key (filter (\<lambda>m. row_key ?a < row_key m) rows)
          = filter (\<lambda>m. row_key ?a < row_key m) ?S"
    by (simp add: filter_sort)
  also have "\<dots> = drop (Suc k) ?S"
    by (rule filter_above_nth [OF sorted_rows_strict [OF d] kS])
  finally have q: "sort_key row_key (filter (\<lambda>m. row_key ?a < row_key m) rows) = drop (Suc k) ?S" .
  obtain ms nc where sc: "scan_rows (take (Suc n) (drop (Suc k) ?S)) (int n) [] None = (ms, nc)"
    by (cases "scan_rows (take (Suc n) (drop (Suc k) ?S)) (int n) [] None")
  have "nat (int n + 1) = Suc n" by simp
  with l n sc scan_page [OF sc] show ?thesis
    by (simp add: GetMessages_def query_after_def anchor after_is_key_less q sql_limit_def
        add_int64_succ)
qed

lemma traverse_rest:
  assumes d: "distinct (map m_ID rows)" and l: "1 \<le> limit" "limit < 2 ^ 63 - 1"
  shows "k < length rows \<Longrightarrow> length rows - Suc k < fuel \<Longrightarrow>
     traverse fuel rows limit (Some (m_ID (sort_key row_key rows ! k)))
       = Some (Inr (drop (Suc k) (sort_key row_key rows)))"
proof (induction fuel arbitrary: k)
  case 0
  then show ?case by simp
next
  case (Suc fuel)
  let ?S = "sort_key row_key rows"
  let ?R = "drop (Suc k) ?S"
  let ?n = "nat limit"
  from l have n: "0 < ?n" by simp
  from l have l0: "0 \<le> limit" by simp
  note g = GetMessages_after [OF d l0 l(2) Suc.prems(1)]
  show ?case
  proof (cases "?n \<le> length ?R")
    case False
    then show ?thesis using g by (simp add: page_def)
  next
    case True
    let ?k' = "Suc k + (?n - 1)"
    from True n have k': "?k' < length rows" by simp
    from True n have idx: "?R ! (?n - 1) = ?S ! ?k'" by simp
    from Suc.prems True n have "length rows - Suc ?k' < fuel" by simp
    from Suc.IH [OF k' this]
    have "traverse fuel rows limit (Some (m_ID (?S ! ?k'))) = Some (Inr (drop (Suc ?k') ?S))" .
    moreover from n have "Suc ?k' = ?n + Suc k" by simp
    then have "drop (Suc ?k') ?S = drop ?n ?R" by (simp only: drop_drop)
    ultimately have r: "traverse fuel rows limit (Some (m_ID (?S ! ?k'))) = Some (Inr (drop ?n ?R))"
      by simp
    from g True n idx
    have gm: "GetMessages rows (Some (m_ID (?S ! k))) limit = Inr (take ?n ?R, Some (m_ID (?S ! ?k')))"
      by (simp add: page_def)
    show ?thesis
      by (simp only: traverse.simps gm r sum.case prod.case option.case append_take_drop_id)
  qed
qed

lemma traverse_all:
  assumes d: "distinct (map m_ID rows)" and l: "1 \<le> limit" "limit < 2 ^ 63 - 1"
    and f: "length rows < fuel"
  shows "traverse fuel rows limit None = Some (Inr (sort_key row_key rows))"
proof -
  let ?S = "sort_key row_key rows"
  let ?n = "nat limit"
  from l have n: "0 < ?n" by simp
  from l have l0: "0 \<le> limit" by simp
  from f obtain fuel' where fuel: "fuel = Suc fuel'" by (cases fuel) simp_all
  note g = GetMessages_first [OF l0 l(2), of rows]
  show ?thesis
  proof (cases "?n \<le> length ?S")
    case False
    then show ?thesis using g fuel by (simp add: page_def)
  next
    case True
    with n have k: "?n - 1 < length rows" by simp
    from f fuel n True have "length rows - Suc (?n - 1) < fuel'" by simp
    from traverse_rest [OF d l k this] n
    have r: "traverse fuel' rows limit (Some (m_ID (?S ! (?n - 1)))) = Some (Inr (drop ?n ?S))" by simp
    from g True n
    have gm: "GetMessages rows None limit = Inr (take ?n ?S, Some (m_ID (?S ! (?n - 1))))"
      by (simp add: page_def)
    show ?thesis
      by (simp only: fuel traverse.simps gm r sum.case prod.case option.case append_take_drop_id)
  qed
qed

lemma scan_rows_init:
  "scan_rows rs (int n) [] None =
     (take n rs, if take n rs = [] then None else Some (m_ID (last (take n rs))))"
  by (simp add: scan_rows_take cong: if_cong)

text \<open>
  C1. Over a snapshot \<open>rows\<close> of the table whose ids are distinct (ids are fresh random
  UUIDs, one per insert), and for a limit of at least 1, the client that starts from the
  empty cursor and follows the returned cursors ends after at most \<open>length rows + 1\<close>
  requests, and the pages together hold every row of the snapshot exactly once, in
  strictly ascending order of \<open>(created_at, id)\<close>.
\<close>

theorem pagination_total_disjoint_ordered:
  assumes "distinct (map m_ID rows)" and "1 \<le> limit" and "limit < 2 ^ 63 - 1"
    and "length rows < fuel"
  shows "\<exists>out. traverse fuel rows limit None = Some (Inr out)
           \<and> mset out = mset rows
           \<and> sorted_wrt (\<lambda>a b. row_key a < row_key b) out"
proof (intro exI conjI)
  show "traverse fuel rows limit None = Some (Inr (sort_key row_key rows))"
    using assms by (rule traverse_all)
  show "mset (sort_key row_key rows) = mset rows" by simp
  show "sorted_wrt (\<lambda>a b. row_key a < row_key b) (sort_key row_key rows)"
    using assms(1) by (rule sorted_rows_strict)
qed

theorem pagination_total_disjoint_ordered_witness:
  "distinct (map m_ID rows3) \<and> length rows3 < 5
   \<and> (\<exists>out. traverse 5 rows3 2 None = Some (Inr out) \<and> mset out = mset rows3
         \<and> sorted_wrt (\<lambda>a b. row_key a < row_key b) out)"
proof -
  have d: "distinct (map m_ID rows3)" by (simp add: rows3_def)
  have f: "length rows3 < 5" by (simp add: rows3_def)
  from pagination_total_disjoint_ordered [OF d _ _ f, of 2] d f show ?thesis by simp
qed

text \<open>
  C2. Whenever \<^verbatim>\<open>GetMessages\<close> returns a page, the cursor returned with it is the id of
  the last row of the page when the page holds exactly \<open>limit\<close> rows (and has a last
  row), and is empty when the page holds fewer than \<open>limit\<close> rows, the empty page
  included.
\<close>

theorem next_cursor_rule:
  assumes "GetMessages rows cursor limit = Inr (msgs, next)"
  shows "(int (length msgs) = limit \<and> msgs \<noteq> [] \<longrightarrow> next = Some (m_ID (last msgs)))
         \<and> (int (length msgs) < limit \<longrightarrow> next = None)"
proof -
  let ?q = "case cursor of None \<Rightarrow> query_first rows (add_int64 limit 1)
            | Some c \<Rightarrow> query_after rows c (add_int64 limit 1)"
  from assms obtain rs where q: "?q = Inr rs"
    by (cases ?q) (simp_all add: GetMessages_def)
  from assms q have l: "0 \<le> limit"
    by (simp add: GetMessages_def split: if_splits)
  then obtain n where n: "limit = int n" by (metis nat_0_le)
  from assms q l have "msgs = fst (scan_rows rs limit [] None)"
    and "next = (if int (length msgs) < limit then None else snd (scan_rows rs limit [] None))"
    by (auto simp add: GetMessages_def split: prod.splits)
  then have "msgs = take n rs"
    and "next = (if length msgs < n then None
                 else if take n rs = [] then None else Some (m_ID (last (take n rs))))"
    by (simp_all add: n scan_rows_init)
  then show ?thesis by (simp add: n)
qed

theorem next_cursor_rule_witness:
  "GetMessages rows3 (Some 9) 2 =
     Inr ([\<lparr>m_ID = 3, m_TenantID = ''a'', m_Payload = ''{}'', m_CreatedAt = 20\<rparr>,
           \<lparr>m_ID = 7, m_TenantID = ''a'', m_Payload = ''{}'', m_CreatedAt = 20\<rparr>], Some 7)
   \<and> GetMessages rows3 (Some 7) 2 =
     Inr ([\<lparr>m_ID = 5, m_TenantID = ''a'', m_Payload = ''{}'', m_CreatedAt = 30\<rparr>], None)"
proof -
  have a: "GetMessages rows3 (Some 9) 2 =
     Inr ([\<lparr>m_ID = 3, m_TenantID = ''a'', m_Payload = ''{}'', m_CreatedAt = 20\<rparr>,
           \<lparr>m_ID = 7, m_TenantID = ''a'', m_Payload = ''{}'', m_CreatedAt = 20\<rparr>], Some 7)"
    by code_simp
  have b: "\<exists>nx. GetMessages rows3 (Some 7) 2 =
     Inr ([\<lparr>m_ID = 5, m_TenantID = ''a'', m_Payload = ''{}'', m_CreatedAt = 30\<rparr>], nx)"
    by code_simp
  then obtain nx where b': "GetMessages rows3 (Some 7) 2 =
     Inr ([\<lparr>m_ID = 5, m_TenantID = ''a'', m_Payload = ''{}'', m_CreatedAt = 30\<rparr>], nx)" ..
  from next_cursor_rule [OF b'] have "nx = None" by simp
  with a b' show ?thesis by simp
qed

text \<open>
  Two remarks on C1. Through \<^verbatim>\<open>Handler.GetMessages\<close> the limit is always within 1 to
  100, so the traversal is complete for every limit parameter a client sends. The other
  read path lists the same rows newest first.
\<close>

lemma ListMessages_descends:
  "ListMessages rows3 None 2 =
     Inr ([\<lparr>m_ID = 5, m_TenantID = ''a'', m_Payload = ''{}'', m_CreatedAt = 30\<rparr>,
           \<lparr>m_ID = 7, m_TenantID = ''a'', m_Payload = ''{}'', m_CreatedAt = 20\<rparr>], Some 7)"
  by code_simp

lemma limit_param_range: "1 \<le> limit_param q \<and> limit_param q \<le> 100"
  by (simp add: limit_param_def split: option.splits)

lemma pagination_through_handler:
  assumes "distinct (map m_ID rows)"
  shows "traverse (Suc (length rows)) rows (limit_param q) None = Some (Inr (sort_key row_key rows))"
proof -
  from limit_param_range [of q] have "1 \<le> limit_param q" and "limit_param q < 2 ^ 63 - 1"
    by simp_all
  with assms show ?thesis by (intro traverse_all) simp_all
qed

section \<open>Properties of the partition names\<close>

lemma ReplaceAll_hyphen:
  "ReplaceAll s ''-'' ''_'' = map (\<lambda>c. if c = CHR ''-'' then CHR ''_'' else c) s"
proof (induction s)
  case Nil
  show ?case by (subst ReplaceAll.simps) simp
next
  case (Cons c cs)
  show ?case by (subst ReplaceAll.simps) (simp add: Cons.IH)
qed

lemma partitionName_example:
  "partitionName ''11111111-1111-1111-1111-111111111111''
     = ''messages_tenant_11111111_1111_1111_1111_111111111111''"
  by (simp add: partitionName_def ReplaceAll_hyphen)

text \<open>
  C9. For every tenant id, the partition name is \<^verbatim>\<open>messages_tenant_\<close> followed by the id
  with each hyphen replaced by an underscore, so that no hyphen of the id is left in it
  and its length is that of the id plus 16; and the statement \<^verbatim>\<open>createPartition\<close>
  issues names the partition by exactly this identifier between double quotes.
\<close>

theorem partition_name_scheme:
  "partitionName tenantID
     = ''messages_tenant_'' @ map (\<lambda>c. if c = CHR ''-'' then CHR ''_'' else c) tenantID
   \<and> CHR ''-'' \<notin> set (ReplaceAll tenantID ''-'' ''_'')
   \<and> length (partitionName tenantID) = 16 + length tenantID
   \<and> createPartition tenantID =
       [CHR 0x0A, CHR 0x09, CHR 0x09] @ ''CREATE TABLE IF NOT EXISTS ''
       @ [CHR 0x22] @ ''messages_tenant_''
       @ map (\<lambda>c. if c = CHR ''-'' then CHR ''_'' else c) tenantID @ [CHR 0x22]
       @ '' PARTITION OF messages'' @ [CHR 0x0A, CHR 0x09, CHR 0x09] @ ''FOR VALUES IN (''
       @ [CHR 0x27] @ tenantID @ [CHR 0x27] @ '')'' @ [CHR 0x0A, CHR 0x09]"
  by (auto simp add: partitionName_def createPartition_def ReplaceAll_hyphen)

section \<open>Properties of the worker pool\<close>

lemma startWorkers_fold:
  "fold startWorkers_round [0..<n] (tc, rt) =
     (tc\<lparr>workerStopChans := workerStopChans tc @ [nchans rt..<nchans rt + n]\<rparr>,
      rt\<lparr>nchans := nchans rt + n,
         goroutines := goroutines rt
           @ map (\<lambda>i. Worker i (nchans rt + i) (StopCh tc) (TaskCh tc)) [0..<n]\<rparr>)"
proof (induction n)
  case 0
  show ?case by simp
next
  case (Suc n)
  show ?case
    by (simp add: Suc.IH make_chan_def)
qed

lemma startWorkers_eq:
  assumes "0 \<le> n"
  shows "startWorkers tc n rt =
     Inr (tc\<lparr>workerStopChans := [nchans rt..<nchans rt + nat n]\<rparr>,
          rt\<lparr>nchans := nchans rt + nat n,
             goroutines := goroutines rt
               @ map (\<lambda>i. Worker i (nchans rt + i) (StopCh tc) (TaskCh tc)) [0..<nat n],
             workerGauge := (workerGauge rt)(ID tc \<mapsto> n)\<rparr>)"
  using assms by (simp add: startWorkers_def startWorkers_fold gauge_set_def)

lemma AddTenant_eq:
  "AddTenant tm tid rt =
     Inr (tm\<lparr>consumers := (consumers tm)(tid \<mapsto>
            \<lparr>ID = tid, StopCh = nchans rt, Workers = 1, TaskCh = Suc (nchans rt),
             workerStopChans = [Suc (Suc (nchans rt))], amqpChannel = None,
             amqpDeliveryCh = None, consumerTag = [], manager = False\<rparr>)\<rparr>,
          rt\<lparr>nchans := nchans rt + 3,
             goroutines := goroutines rt
               @ [Worker 0 (Suc (Suc (nchans rt))) (nchans rt) (Suc (nchans rt))],
             workerGauge := (workerGauge rt)(tid \<mapsto> 1)\<rparr>)"
  by (simp add: AddTenant_def make_chan_def startWorkers_eq)

lemma worker_of_StopCh: "StopCh a = StopCh b \<Longrightarrow> worker_of a g = worker_of b g"
  by (cases g) simp_all

lemma worker_of_Workers: "worker_of (c\<lparr>Workers := n\<rparr>) = worker_of c"
  by (rule ext) (rule worker_of_StopCh, simp)

lemma worker_of_chans: "worker_of (c\<lparr>workerStopChans := chs\<rparr>) = worker_of c"
  by (rule ext) (rule worker_of_StopCh, simp)

lemma close_all_ok:
  "distinct chs \<Longrightarrow> set chs \<inter> closed rt = {} \<Longrightarrow>
     close_all chs rt = Inr (rt\<lparr>closed := closed rt \<union> set chs\<rparr>)"
proof (induction chs arbitrary: rt)
  case Nil
  show ?case by simp
next
  case (Cons ch chs)
  from Cons.prems have "ch \<notin> closed rt" by auto
  moreover from Cons.prems
  have "close_all chs (rt\<lparr>closed := insert ch (closed rt)\<rparr>)
          = Inr (rt\<lparr>closed := insert ch (closed rt)\<rparr>
                   \<lparr>closed := closed (rt\<lparr>closed := insert ch (closed rt)\<rparr>) \<union> set chs\<rparr>)"
    by (intro Cons.IH) auto
  ultimately show ?case by (simp add: close_chan_def)
qed

lemma enumerate_upt: "enumerate 0 [N..<N + n] = map (\<lambda>i. (i, N + i)) [0..<n]"
  by (rule nth_equalityI) (simp_all add: nth_enumerate_eq)

lemma workers_told_to_stop:
  "set chs \<subseteq> cl \<Longrightarrow>
     list_all (told_to_stop cl) (map (\<lambda>(i, ch). Worker i ch s t) (enumerate 0 chs))"
  by (auto simp add: list_all_iff in_set_enumerate_eq intro: subsetD [OF _ nth_mem])

lemma stopWorkers_ok:
  assumes "pool_ok rt c"
  shows "stopWorkers c rt =
     Inr (rt\<lparr>closed := closed rt \<union> set (workerStopChans c),
             goroutines := filter (\<lambda>g. \<not> worker_of c g) (goroutines rt),
             workerGauge := (workerGauge rt)(ID c \<mapsto> 0)\<rparr>)"
proof -
  let ?rt1 = "gauge_set (ID c) 0 rt"
  from assms have "distinct (workerStopChans c)" and "set (workerStopChans c) \<inter> closed ?rt1 = {}"
    by (simp_all add: pool_ok_def gauge_set_def)
  then have cl: "close_all (workerStopChans c) ?rt1
                   = Inr (?rt1\<lparr>closed := closed ?rt1 \<union> set (workerStopChans c)\<rparr>)"
    by (rule close_all_ok)
  from assms have w: "filter (worker_of c) (goroutines rt)
      = map (\<lambda>(i, ch). Worker i ch (StopCh c) (TaskCh c)) (enumerate 0 (workerStopChans c))"
    by (simp add: pool_ok_def)
  have "list_all (told_to_stop (closed rt \<union> set (workerStopChans c)))
          (filter (worker_of c) (goroutines rt))"
    unfolding w by (rule workers_told_to_stop) simp
  then show ?thesis
    unfolding stopWorkers_def cl by (simp add: wg_wait_def gauge_set_def)
qed

lemma pool_ok_gauge: "pool_ok (gauge_set tid v rt) c = pool_ok rt c"
  by (simp add: pool_ok_def gauge_set_def)

lemma pool_ok_Workers: "pool_ok rt (c\<lparr>Workers := n\<rparr>) = pool_ok rt c"
  by (simp add: pool_ok_def worker_of_Workers)

lemma filter_own_workers_after_restart:
  "filter (worker_of c)
     (filter (\<lambda>g. \<not> worker_of c g) gs @ map (\<lambda>i. Worker i (N + i) (StopCh c) (TaskCh c)) [0..<n])
   = map (\<lambda>i. Worker i (N + i) (StopCh c) (TaskCh c)) [0..<n]"
proof -
  have "filter (worker_of c) (filter (\<lambda>g. \<not> worker_of c g) gs) = []"
    by (simp add: filter_empty_conv)
  moreover have "filter (worker_of c) (map (\<lambda>i. Worker i (N + i) (StopCh c) (TaskCh c)) [0..<n])
                   = map (\<lambda>i. Worker i (N + i) (StopCh c) (TaskCh c)) [0..<n]"
    by (simp add: filter_id_conv)
  ultimately show ?thesis by simp
qed

lemma worker_of_stop: "worker_of c g \<Longrightarrow> stop_of g = StopCh c"
  by (cases g) simp_all

lemma filter_other_workers:
  assumes "StopCh c \<noteq> StopCh c'"
  shows "filter (worker_of c') (filter (\<lambda>g. \<not> worker_of c g) gs) = filter (worker_of c') gs"
proof -
  have "\<And>g. worker_of c' g \<Longrightarrow> \<not> worker_of c g"
    using assms by (auto dest!: worker_of_stop)
  then show ?thesis by (auto intro: filter_cong)
qed

lemma filter_fresh_workers:
  assumes "\<forall>g\<in>set gs. stop_of g \<noteq> StopCh c"
  shows "filter (worker_of c) gs = []"
  using assms by (auto simp add: filter_empty_conv dest!: worker_of_stop)

lemma pool_ok_frame:
  assumes ok: "pool_ok rt c"
    and n: "nchans rt \<le> nchans rt1"
    and cl: "closed rt1 \<subseteq> closed rt \<union> X"
    and x: "\<forall>ch\<in>X. ch < nchans rt1 \<and> ch \<noteq> StopCh c \<and> ch \<notin> set (workerStopChans c)"
    and g: "filter (worker_of c) (goroutines rt1) = filter (worker_of c) (goroutines rt)"
  shows "pool_ok rt1 c"
  using assms unfolding pool_ok_def
  by (intro conjI) (fastforce simp: subset_iff)+

lemma stopWorkers_run:
  assumes d: "distinct (workerStopChans c)" and cl: "set (workerStopChans c) \<inter> closed rt = {}"
    and w: "filter (worker_of c) (goroutines rt)
      = map (\<lambda>(i, ch). Worker i ch (StopCh c) (TaskCh c)) (enumerate 0 (workerStopChans c))"
  shows "stopWorkers c rt =
     Inr (rt\<lparr>closed := closed rt \<union> set (workerStopChans c),
             goroutines := filter (\<lambda>g. \<not> worker_of c g) (goroutines rt),
             workerGauge := (workerGauge rt)(ID c \<mapsto> 0)\<rparr>)"
proof -
  let ?rt1 = "gauge_set (ID c) 0 rt"
  from d cl have "distinct (workerStopChans c)" and "set (workerStopChans c) \<inter> closed ?rt1 = {}"
    by (simp_all add: gauge_set_def)
  then have c1: "close_all (workerStopChans c) ?rt1
                   = Inr (?rt1\<lparr>closed := closed ?rt1 \<union> set (workerStopChans c)\<rparr>)"
    by (rule close_all_ok)
  have "list_all (told_to_stop (closed rt \<union> set (workerStopChans c)))
          (filter (worker_of c) (goroutines rt))"
    unfolding w by (rule workers_told_to_stop) simp
  then show ?thesis
    unfolding stopWorkers_def c1 by (simp add: wg_wait_def gauge_set_def)
qed

lemma updateWorkers_same:
  "n = int (length (workerStopChans c)) \<Longrightarrow> updateWorkers c n rt = Inr (c, gauge_set (ID c) n rt)"
  by (simp add: updateWorkers_def)

lemma updateWorkers_restart:
  assumes ok: "pool_ok rt c" and n: "0 \<le> n" and ne: "n \<noteq> int (length (workerStopChans c))"
  shows "updateWorkers c n rt = Inr (restarted c n rt)"
proof -
  from ok have ok1: "pool_ok (rt\<lparr>workerGauge := (workerGauge rt)(ID c \<mapsto> n)\<rparr>) c"
    using pool_ok_gauge [of "ID c" n rt c] by (simp add: gauge_set_def)
  show ?thesis
    using ne n
    by (simp add: updateWorkers_def gauge_set_def stopWorkers_ok [OF ok1] startWorkers_eq
        restarted_def)
qed

lemma updateWorkers_negative:
  assumes ok: "pool_ok rt c" and n: "n < 0"
  shows "updateWorkers c n rt = Inl MakesliceLenPanic"
proof -
  from ok have ok1: "pool_ok (rt\<lparr>workerGauge := (workerGauge rt)(ID c \<mapsto> n)\<rparr>) c"
    using pool_ok_gauge [of "ID c" n rt c] by (simp add: gauge_set_def)
  show ?thesis
    using n
    by (simp add: updateWorkers_def gauge_set_def stopWorkers_ok [OF ok1] startWorkers_def)
qed

lemma pool_ok_restarted:
  assumes ok: "pool_ok rt c"
  shows "pool_ok (snd (restarted c n rt)) (fst (restarted c n rt))"
proof -
  let ?N = "nchans rt"
  let ?chs = "[?N..<?N + nat n]"
  note w = worker_of_chans [of ?chs c]
  from ok have a: "StopCh c \<notin> closed rt" "StopCh c \<notin> set (workerStopChans c)" "StopCh c < ?N"
    "\<forall>ch\<in>closed rt. ch < ?N" "\<forall>ch\<in>set (workerStopChans c). ch < ?N"
    by (simp_all add: pool_ok_def)
  show ?thesis
    unfolding pool_ok_def restarted_def fst_conv snd_conv w
  proof (intro conjI)
    let ?rt2 = "rt\<lparr>nchans := ?N + nat n,
                closed := closed rt \<union> set (workerStopChans c),
                goroutines := filter (\<lambda>g. \<not> worker_of c g) (goroutines rt)
                  @ map (\<lambda>i. Worker i (?N + i) (StopCh c) (TaskCh c)) [0..<nat n],
                workerGauge := (workerGauge rt)(ID c \<mapsto> n)\<rparr>"
    let ?c1 = "c\<lparr>workerStopChans := ?chs\<rparr>"
    show "filter (worker_of c) (goroutines ?rt2)
            = map (\<lambda>(i, ch). Worker i ch (StopCh ?c1) (TaskCh ?c1)) (enumerate 0 (workerStopChans ?c1))"
      by (simp add: filter_own_workers_after_restart enumerate_upt comp_def del: filter_append)
  qed (use a in \<open>auto\<close>)
qed

lemma pool_ok_less:
  "pool_ok rt c \<Longrightarrow> StopCh c < nchans rt \<and> (\<forall>ch\<in>set (workerStopChans c). ch < nchans rt)
     \<and> (\<forall>ch\<in>closed rt. ch < nchans rt)"
  by (simp add: pool_ok_def)



section \<open>The invariant of the registry\<close>

lemma registry_okI:
  assumes "\<And>g. g \<in> set (goroutines rt) \<Longrightarrow> stop_of g < nchans rt"
    and "\<And>ch. ch \<in> closed rt \<Longrightarrow> ch < nchans rt"
    and "\<And>tid c. consumers tm tid = Some c \<Longrightarrow> pool_ok rt c"
    and "\<And>tid tid' c c'. consumers tm tid = Some c \<Longrightarrow> consumers tm tid' = Some c' \<Longrightarrow> tid \<noteq> tid'
           \<Longrightarrow> StopCh c \<noteq> StopCh c' \<and> StopCh c' \<notin> set (workerStopChans c)
               \<and> set (workerStopChans c) \<inter> set (workerStopChans c') = {}"
  shows "registry_ok tm rt"
  using assms unfolding registry_ok_def by blast

lemma registry_ok_goroutines:
  "registry_ok tm rt \<Longrightarrow> g \<in> set (goroutines rt) \<Longrightarrow> stop_of g < nchans rt"
  unfolding registry_ok_def by blast

lemma registry_ok_closed:
  "registry_ok tm rt \<Longrightarrow> ch \<in> closed rt \<Longrightarrow> ch < nchans rt"
  unfolding registry_ok_def by blast

lemma registry_ok_pool: "registry_ok tm rt \<Longrightarrow> consumers tm tid = Some c \<Longrightarrow> pool_ok rt c"
  unfolding registry_ok_def by blast

lemma registry_ok_apart:
  "registry_ok tm rt \<Longrightarrow> consumers tm tid = Some c \<Longrightarrow> consumers tm tid' = Some c' \<Longrightarrow> tid \<noteq> tid'
     \<Longrightarrow> StopCh c \<noteq> StopCh c' \<and> StopCh c' \<notin> set (workerStopChans c)
         \<and> set (workerStopChans c) \<inter> set (workerStopChans c') = {}"
  unfolding registry_ok_def by blast

lemma registry_ok_same:
  assumes ok: "registry_ok tm rt" and c: "consumers tm tid = Some c"
  shows "registry_ok (tm\<lparr>consumers := (consumers tm)(tid \<mapsto> c\<lparr>Workers := n\<rparr>)\<rparr>)
           (gauge_set (ID (c\<lparr>Workers := n\<rparr>)) n rt)"
proof (rule registry_okI)
  fix g assume "g \<in> set (goroutines (gauge_set (ID (c\<lparr>Workers := n\<rparr>)) n rt))"
  then show "stop_of g < nchans (gauge_set (ID (c\<lparr>Workers := n\<rparr>)) n rt)"
    using registry_ok_goroutines [OF ok] by (simp add: gauge_set_def)
next
  fix ch assume "ch \<in> closed (gauge_set (ID (c\<lparr>Workers := n\<rparr>)) n rt)"
  then show "ch < nchans (gauge_set (ID (c\<lparr>Workers := n\<rparr>)) n rt)"
    using registry_ok_closed [OF ok] by (simp add: gauge_set_def)
next
  fix t d assume "consumers (tm\<lparr>consumers := (consumers tm)(tid \<mapsto> c\<lparr>Workers := n\<rparr>)\<rparr>) t = Some d"
  then show "pool_ok (gauge_set (ID (c\<lparr>Workers := n\<rparr>)) n rt) d"
    using registry_ok_pool [OF ok] c
    by (auto simp add: pool_ok_gauge pool_ok_Workers split: if_splits)
next
  fix t t' d d'
  assume "consumers (tm\<lparr>consumers := (consumers tm)(tid \<mapsto> c\<lparr>Workers := n\<rparr>)\<rparr>) t = Some d"
    and "consumers (tm\<lparr>consumers := (consumers tm)(tid \<mapsto> c\<lparr>Workers := n\<rparr>)\<rparr>) t' = Some d'"
    and "t \<noteq> t'"
  then show "StopCh d \<noteq> StopCh d' \<and> StopCh d' \<notin> set (workerStopChans d)
               \<and> set (workerStopChans d) \<inter> set (workerStopChans d') = {}"
    using registry_ok_apart [OF ok, of t _ t'] c
    by (fastforce split: if_splits)
qed

lemma registry_ok_put:
  assumes ok: "registry_ok tm rt"
    and g: "\<And>g. g \<in> set (goroutines rt') \<Longrightarrow> stop_of g < nchans rt'"
    and d: "pool_ok rt' d"
    and others: "\<And>t e. t \<noteq> tid \<Longrightarrow> consumers tm t = Some e \<Longrightarrow>
        pool_ok rt' e \<and> StopCh d \<noteq> StopCh e \<and> StopCh e \<notin> set (workerStopChans d)
        \<and> StopCh d \<notin> set (workerStopChans e)
        \<and> set (workerStopChans d) \<inter> set (workerStopChans e) = {}"
  shows "registry_ok (tm\<lparr>consumers := (consumers tm)(tid \<mapsto> d)\<rparr>) rt'"
proof (rule registry_okI)
  fix g assume "g \<in> set (goroutines rt')"
  then show "stop_of g < nchans rt'" by (rule g)
next
  fix ch assume "ch \<in> closed rt'"
  then show "ch < nchans rt'" using pool_ok_less [OF d] by blast
next
  fix t e assume "consumers (tm\<lparr>consumers := (consumers tm)(tid \<mapsto> d)\<rparr>) t = Some e"
  then show "pool_ok rt' e"
    using d others by (cases "t = tid") auto
next
  fix t t' e e'
  assume e: "consumers (tm\<lparr>consumers := (consumers tm)(tid \<mapsto> d)\<rparr>) t = Some e"
    and e': "consumers (tm\<lparr>consumers := (consumers tm)(tid \<mapsto> d)\<rparr>) t' = Some e'"
    and ne: "t \<noteq> t'"
  show "StopCh e \<noteq> StopCh e' \<and> StopCh e' \<notin> set (workerStopChans e)
               \<and> set (workerStopChans e) \<inter> set (workerStopChans e') = {}"
  proof (cases "t = tid")
    case True
    with e e' ne have "e = d" "consumers tm t' = Some e'" "t' \<noteq> tid" by auto
    with others [of t' e'] show ?thesis by auto
  next
    case False
    note t = False
    show ?thesis
    proof (cases "t' = tid")
      case True
      with e e' t have "e' = d" "consumers tm t = Some e" by auto
      with others [of t e] t show ?thesis by auto
    next
      case False
      with e e' t have "consumers tm t = Some e" "consumers tm t' = Some e'" by auto
      with registry_ok_apart [OF ok _ _ ne] show ?thesis by blast
    qed
  qed
qed

lemma registry_ok_drop:
  assumes ok: "registry_ok tm rt"
    and g: "\<And>g. g \<in> set (goroutines rt') \<Longrightarrow> stop_of g < nchans rt'"
    and cl: "\<And>ch. ch \<in> closed rt' \<Longrightarrow> ch < nchans rt'"
    and others: "\<And>t e. t \<noteq> tid \<Longrightarrow> consumers tm t = Some e \<Longrightarrow> pool_ok rt' e"
  shows "registry_ok (tm\<lparr>consumers := (consumers tm)(tid := None)\<rparr>) rt'"
proof (rule registry_okI)
  fix g assume "g \<in> set (goroutines rt')"
  then show "stop_of g < nchans rt'" by (rule g)
next
  fix ch assume "ch \<in> closed rt'"
  then show "ch < nchans rt'" by (rule cl)
next
  fix t e assume "consumers (tm\<lparr>consumers := (consumers tm)(tid := None)\<rparr>) t = Some e"
  then show "pool_ok rt' e"
    using others by (cases "t = tid") auto
next
  fix t t' e e'
  assume "consumers (tm\<lparr>consumers := (consumers tm)(tid := None)\<rparr>) t = Some e"
    and "consumers (tm\<lparr>consumers := (consumers tm)(tid := None)\<rparr>) t' = Some e'"
    and ne: "t \<noteq> t'"
  then have "consumers tm t = Some e" "consumers tm t' = Some e'"
    by (auto split: if_splits)
  with registry_ok_apart [OF ok _ _ ne]
  show "StopCh e \<noteq> StopCh e' \<and> StopCh e' \<notin> set (workerStopChans e)
               \<and> set (workerStopChans e) \<inter> set (workerStopChans e') = {}" by blast
qed

lemma registry_ok_restarted:
  assumes ok: "registry_ok tm rt" and c: "consumers tm tid = Some c"
  shows "registry_ok
           (tm\<lparr>consumers := (consumers tm)(tid \<mapsto> fst (restarted (c\<lparr>Workers := n\<rparr>) n rt))\<rparr>)
           (snd (restarted (c\<lparr>Workers := n\<rparr>) n rt))"
proof (rule registry_ok_put [OF ok])
  let ?c0 = "c\<lparr>Workers := n\<rparr>"
  let ?d = "fst (restarted ?c0 n rt)"
  let ?rt' = "snd (restarted ?c0 n rt)"
  from registry_ok_pool [OF ok c] have pc: "pool_ok rt c" .
  then have pc0: "pool_ok rt ?c0" by (simp add: pool_ok_Workers)
  note lc = pool_ok_less [OF pc]
  show "pool_ok ?rt' ?d" using pc0 by (rule pool_ok_restarted)
  {
    fix g assume "g \<in> set (goroutines ?rt')"
    then show "stop_of g < nchans ?rt'"
      using registry_ok_goroutines [OF ok] lc
      by (auto simp add: restarted_def intro: trans_less_add1)
  }
  {
    fix t e assume t: "t \<noteq> tid" and e: "consumers tm t = Some e"
    from registry_ok_pool [OF ok e] have pe: "pool_ok rt e" .
    note le = pool_ok_less [OF pe]
    from registry_ok_apart [OF ok c e] t
    have ap: "StopCh c \<noteq> StopCh e" "StopCh e \<notin> set (workerStopChans c)"
      "set (workerStopChans c) \<inter> set (workerStopChans e) = {}" by auto
    from registry_ok_apart [OF ok e c] t
    have ap': "StopCh c \<notin> set (workerStopChans e)" by auto
    have f: "filter (worker_of e) (goroutines ?rt') = filter (worker_of e) (goroutines rt)"
    proof -
      have "filter (worker_of e) (map (\<lambda>i. Worker i (nchans rt + i) (StopCh c) (TaskCh c)) [0..<nat n]) = []"
        using ap(1) by (simp add: filter_empty_conv)
      then show ?thesis
        using filter_other_workers [of c e "goroutines rt"] ap(1)
        by (simp add: restarted_def worker_of_Workers)
    qed
    have "pool_ok ?rt' e"
    proof (rule pool_ok_frame [OF pe _ _ _ f])
      show "nchans rt \<le> nchans ?rt'" by (simp add: restarted_def)
      show "closed ?rt' \<subseteq> closed rt \<union> set (workerStopChans c)" by (simp add: restarted_def)
      show "\<forall>ch\<in>set (workerStopChans c).
              ch < nchans ?rt' \<and> ch \<noteq> StopCh e \<and> ch \<notin> set (workerStopChans e)"
        using lc ap by (auto simp add: restarted_def intro: trans_less_add1)
    qed
    moreover have "StopCh ?d \<noteq> StopCh e" using ap by (simp add: restarted_def)
    moreover have "StopCh e \<notin> set (workerStopChans ?d)" using le by (simp add: restarted_def)
    moreover have "StopCh ?d \<notin> set (workerStopChans e)" using ap' by (simp add: restarted_def)
    moreover have "set (workerStopChans ?d) \<inter> set (workerStopChans e) = {}"
      using le by (auto simp add: restarted_def)
    ultimately show "pool_ok ?rt' e \<and> StopCh ?d \<noteq> StopCh e \<and> StopCh e \<notin> set (workerStopChans ?d)
        \<and> StopCh ?d \<notin> set (workerStopChans e)
        \<and> set (workerStopChans ?d) \<inter> set (workerStopChans e) = {}" by blast
  }
qed

lemma UpdateConcurrency_eq:
  assumes ok: "registry_ok tm rt" and c: "consumers tm tid = Some c"
  shows "UpdateConcurrency tm tid n rt =
     (if n < 0 then Inl MakesliceLenPanic
      else if n = int (length (workerStopChans c))
        then Inr (tm\<lparr>consumers := (consumers tm)(tid \<mapsto> c\<lparr>Workers := n\<rparr>)\<rparr>,
                  gauge_set (ID c) n rt)
      else Inr (tm\<lparr>consumers := (consumers tm)(tid \<mapsto> fst (restarted (c\<lparr>Workers := n\<rparr>) n rt))\<rparr>,
                snd (restarted (c\<lparr>Workers := n\<rparr>) n rt)))"
proof -
  let ?c0 = "c\<lparr>Workers := n\<rparr>"
  from registry_ok_pool [OF ok c] have pc0: "pool_ok rt ?c0" by (simp add: pool_ok_Workers)
  show ?thesis
  proof (cases "n < 0")
    case True
    then show ?thesis
      using c by (simp add: UpdateConcurrency_def updateWorkers_negative [OF pc0])
  next
    case False
    then have n: "0 \<le> n" by simp
    show ?thesis
    proof (cases "n = int (length (workerStopChans c))")
      case True
      then have "updateWorkers ?c0 n rt = Inr (?c0, gauge_set (ID ?c0) n rt)"
        by (intro updateWorkers_same) simp
      with True n c show ?thesis by (simp add: UpdateConcurrency_def)
    next
      case False
      then have "updateWorkers ?c0 n rt = Inr (restarted ?c0 n rt)"
        using pc0 n by (intro updateWorkers_restart) simp_all
      with False n c show ?thesis
        by (simp add: UpdateConcurrency_def split: prod.splits)
    qed
  qed
qed

lemma UpdateConcurrency_preserves:
  assumes ok: "registry_ok tm rt" and u: "UpdateConcurrency tm tid n rt = Inr (tm', rt')"
  shows "registry_ok tm' rt'"
proof (cases "consumers tm tid")
  case None
  with u ok show ?thesis by (simp add: UpdateConcurrency_def)
next
  case (Some c)
  from u show ?thesis
    unfolding UpdateConcurrency_eq [OF ok Some]
    using registry_ok_same [OF ok Some, of n] registry_ok_restarted [OF ok Some, of n]
    by (auto split: if_splits)
qed

lemma registry_ok_broker:
  assumes "registry_ok tm rt" and "nchans rt' = nchans rt" and "closed rt' = closed rt"
    and "goroutines rt' = goroutines rt"
  shows "registry_ok tm rt'"
  using assms unfolding registry_ok_def pool_ok_def by simp

lemma registry_ok_new:
  assumes ok: "registry_ok tm rt"
    and s: "nchans rt \<le> StopCh d" "StopCh d < w" "w < nchans rt'"
    and chs: "workerStopChans d = [w]"
    and cl: "closed rt' = closed rt"
    and gs: "goroutines rt' = goroutines rt @ new"
    and new: "\<And>g. g \<in> set new \<Longrightarrow> stop_of g = StopCh d"
    and own: "filter (worker_of d) new = [Worker 0 w (StopCh d) (TaskCh d)]"
  shows "registry_ok (tm\<lparr>consumers := (consumers tm)(tid \<mapsto> d)\<rparr>) rt'"
proof (rule registry_ok_put [OF ok])
  fix g assume "g \<in> set (goroutines rt')"
  then show "stop_of g < nchans rt'"
    using registry_ok_goroutines [OF ok, of g] new [of g] s by (auto simp add: gs)
next
  have "filter (worker_of d) (goroutines rt) = []"
    using registry_ok_goroutines [OF ok] s by (intro filter_fresh_workers) fastforce
  then have "filter (worker_of d) (goroutines rt') = [Worker 0 w (StopCh d) (TaskCh d)]"
    by (simp add: gs own)
  then show "pool_ok rt' d"
    using s registry_ok_closed [OF ok] unfolding pool_ok_def chs cl
    by (fastforce simp add: enumerate_simps)
next
  fix t e assume t: "t \<noteq> tid" and e: "consumers tm t = Some e"
  from registry_ok_pool [OF ok e] have pe: "pool_ok rt e" .
  note le = pool_ok_less [OF pe]
  have "filter (worker_of e) new = []"
    using new le s by (intro filter_fresh_workers) fastforce
  then have f: "filter (worker_of e) (goroutines rt') = filter (worker_of e) (goroutines rt)"
    by (simp add: gs)
  have "pool_ok rt' e"
    by (rule pool_ok_frame [OF pe _ _ _ f, of "{}"]) (use s cl in auto)
  then show "pool_ok rt' e \<and> StopCh d \<noteq> StopCh e \<and> StopCh e \<notin> set (workerStopChans d)
        \<and> StopCh d \<notin> set (workerStopChans e)
        \<and> set (workerStopChans d) \<inter> set (workerStopChans e) = {}"
    using le s chs by fastforce
qed

lemma AddTenant_preserves:
  assumes ok: "registry_ok tm rt" and a: "AddTenant tm tid rt = Inr (tm', rt')"
  shows "registry_ok tm' rt'"
proof -
  from a [unfolded AddTenant_eq] have tm': "tm' = tm\<lparr>consumers := (consumers tm)(tid \<mapsto>
            \<lparr>ID = tid, StopCh = nchans rt, Workers = 1, TaskCh = Suc (nchans rt),
             workerStopChans = [Suc (Suc (nchans rt))], amqpChannel = None,
             amqpDeliveryCh = None, consumerTag = [], manager = False\<rparr>)\<rparr>"
    and rt': "rt' = rt\<lparr>nchans := nchans rt + 3,
             goroutines := goroutines rt
               @ [Worker 0 (Suc (Suc (nchans rt))) (nchans rt) (Suc (nchans rt))],
             workerGauge := (workerGauge rt)(tid \<mapsto> 1)\<rparr>"
    by simp_all
  show ?thesis unfolding tm'
    by (rule registry_ok_new [OF ok, where w = "Suc (Suc (nchans rt))"
          and new = "[Worker 0 (Suc (Suc (nchans rt))) (nchans rt) (Suc (nchans rt))]"])
       (simp_all add: rt')
qed

lemma AddTenantWithAMQP_ok:
  assumes "\<not> Channel_err conn" and "\<not> DeclareDLQ_err conn" and "\<not> DeclareQueue_err conn"
    and "\<not> Consume_err conn"
  shows "AddTenantWithAMQP tm tid conn rt =
     Inr (None, tm\<lparr>consumers := (consumers tm)(tid \<mapsto> amqp_consumer tid rt)\<rparr>,
          rt\<lparr>nchans := nchans rt + 4,
             goroutines := goroutines rt
               @ [Worker 0 (nchans rt + 3) (nchans rt + 1) (nchans rt + 2),
                  ConsumeLoop (nchans rt + 1) (nchans rt) (nchans rt + 2)],
             workerGauge := (workerGauge rt)(tid \<mapsto> 1),
             namqp := Suc (namqp rt),
             calls := calls rt @ amqp_calls tid (namqp rt)\<rparr>)"
  using assms
  by (simp add: AddTenantWithAMQP_def Let_def broker_def make_chan_def startWorkers_eq
      amqp_consumer_def amqp_calls_def numeral_3_eq_3)

lemma AddTenantWithAMQP_failed:
  assumes "AddTenantWithAMQP tm tid conn rt = Inr (Some e, tm', rt')"
  shows "tm' = tm \<and> nchans rt' = nchans rt \<and> closed rt' = closed rt
         \<and> goroutines rt' = goroutines rt \<and> workerGauge rt' = workerGauge rt"
proof (cases "\<not> Channel_err conn \<and> \<not> DeclareDLQ_err conn \<and> \<not> DeclareQueue_err conn
    \<and> \<not> Consume_err conn")
  case True
  with assms show ?thesis by (simp add: AddTenantWithAMQP_ok)
next
  case False
  with assms show ?thesis
    by (auto simp add: AddTenantWithAMQP_def Let_def broker_def split: if_splits)
qed

lemma AddTenantWithAMQP_preserves:
  assumes ok: "registry_ok tm rt" and a: "AddTenantWithAMQP tm tid conn rt = Inr (e, tm', rt')"
  shows "registry_ok tm' rt'"
proof (cases e)
  case (Some err)
  with a have "tm' = tm \<and> nchans rt' = nchans rt \<and> closed rt' = closed rt
         \<and> goroutines rt' = goroutines rt \<and> workerGauge rt' = workerGauge rt"
    by (intro AddTenantWithAMQP_failed) simp
  with ok show ?thesis by (auto intro: registry_ok_broker)
next
  case None
  with a have c: "\<not> Channel_err conn" "\<not> DeclareDLQ_err conn" "\<not> DeclareQueue_err conn"
    "\<not> Consume_err conn"
    by (auto simp add: AddTenantWithAMQP_def Let_def split: if_splits)
  note r = a [unfolded AddTenantWithAMQP_ok [OF c]]
  from r have tm': "tm' = tm\<lparr>consumers := (consumers tm)(tid \<mapsto> amqp_consumer tid rt)\<rparr>"
    by simp
  from r have rt': "rt' = rt\<lparr>nchans := nchans rt + 4,
             goroutines := goroutines rt
               @ [Worker 0 (nchans rt + 3) (nchans rt + 1) (nchans rt + 2),
                  ConsumeLoop (nchans rt + 1) (nchans rt) (nchans rt + 2)],
             workerGauge := (workerGauge rt)(tid \<mapsto> 1),
             namqp := Suc (namqp rt),
             calls := calls rt @ amqp_calls tid (namqp rt)\<rparr>"
    by simp
  show ?thesis unfolding tm'
    by (rule registry_ok_new [OF ok, where w = "nchans rt + 3"
          and new = "[Worker 0 (nchans rt + 3) (nchans rt + 1) (nchans rt + 2),
                  ConsumeLoop (nchans rt + 1) (nchans rt) (nchans rt + 2)]"])
       (auto simp add: rt' amqp_consumer_def)
qed

lemma stop_consumer:
  assumes p: "pool_ok rt c"
  shows "close_chan (StopCh c) rt = Inr (rt\<lparr>closed := insert (StopCh c) (closed rt)\<rparr>)"
    and "stopWorkers c (rt\<lparr>closed := insert (StopCh c) (closed rt)\<rparr>) = Inr (stopped c rt)"
proof -
  from p show "close_chan (StopCh c) rt = Inr (rt\<lparr>closed := insert (StopCh c) (closed rt)\<rparr>)"
    by (simp add: close_chan_def pool_ok_def)
  from p have "stopWorkers c (rt\<lparr>closed := insert (StopCh c) (closed rt)\<rparr>) =
     Inr (rt\<lparr>closed := insert (StopCh c) (closed rt)\<rparr>
           \<lparr>closed := closed (rt\<lparr>closed := insert (StopCh c) (closed rt)\<rparr>) \<union> set (workerStopChans c),
             goroutines := filter (\<lambda>g. \<not> worker_of c g)
               (goroutines (rt\<lparr>closed := insert (StopCh c) (closed rt)\<rparr>)),
             workerGauge := (workerGauge (rt\<lparr>closed := insert (StopCh c) (closed rt)\<rparr>))(ID c \<mapsto> 0)\<rparr>)"
    by (intro stopWorkers_run) (auto simp add: pool_ok_def)
  then show "stopWorkers c (rt\<lparr>closed := insert (StopCh c) (closed rt)\<rparr>) = Inr (stopped c rt)"
    by (simp add: stopped_def)
qed

lemma registry_ok_stopped:
  assumes ok: "registry_ok tm rt" and c: "consumers tm tid = Some c"
  shows "registry_ok (tm\<lparr>consumers := (consumers tm)(tid := None)\<rparr>) (stopped c rt)"
proof (rule registry_ok_drop [OF ok])
  from registry_ok_pool [OF ok c] have pc: "pool_ok rt c" .
  note lc = pool_ok_less [OF pc]
  {
    fix g assume "g \<in> set (goroutines (stopped c rt))"
    then show "stop_of g < nchans (stopped c rt)"
      using registry_ok_goroutines [OF ok] by (simp add: stopped_def)
  }
  {
    fix ch assume "ch \<in> closed (stopped c rt)"
    then show "ch < nchans (stopped c rt)"
      using lc by (auto simp add: stopped_def)
  }
  {
    fix t e assume t: "t \<noteq> tid" and e: "consumers tm t = Some e"
    from registry_ok_pool [OF ok e] have pe: "pool_ok rt e" .
    from registry_ok_apart [OF ok c e] t
    have ap: "StopCh c \<noteq> StopCh e" "StopCh e \<notin> set (workerStopChans c)"
      "set (workerStopChans c) \<inter> set (workerStopChans e) = {}" by auto
    from registry_ok_apart [OF ok e c] t
    have ap': "StopCh c \<notin> set (workerStopChans e)" by auto
    have f: "filter (worker_of e) (goroutines (stopped c rt)) = filter (worker_of e) (goroutines rt)"
      using filter_other_workers [of c e "goroutines rt"] ap(1) by (simp add: stopped_def)
    show "pool_ok (stopped c rt) e"
    proof (rule pool_ok_frame [OF pe _ _ _ f])
      show "nchans rt \<le> nchans (stopped c rt)" by (simp add: stopped_def)
      show "closed (stopped c rt) \<subseteq> closed rt \<union> insert (StopCh c) (set (workerStopChans c))"
        by (auto simp add: stopped_def)
      show "\<forall>ch\<in>insert (StopCh c) (set (workerStopChans c)).
              ch < nchans (stopped c rt) \<and> ch \<noteq> StopCh e \<and> ch \<notin> set (workerStopChans e)"
        using lc ap ap' by (auto simp add: stopped_def)
    qed
  }
qed

lemma RemoveTenant_eq:
  assumes ok: "registry_ok tm rt" and c: "consumers tm tid = Some c"
  shows "RemoveTenant tm tid rt = Inr (tm\<lparr>consumers := (consumers tm)(tid := None)\<rparr>, stopped c rt)"
  using c stop_consumer [OF registry_ok_pool [OF ok c]]
  by (simp add: RemoveTenant_def)

lemma RemoveTenant_preserves:
  assumes ok: "registry_ok tm rt" and r: "RemoveTenant tm tid rt = Inr (tm', rt')"
  shows "registry_ok tm' rt'"
proof (cases "consumers tm tid")
  case None
  with r ok show ?thesis by (simp add: RemoveTenant_def)
next
  case (Some c)
  from r show ?thesis
    unfolding RemoveTenant_eq [OF ok Some]
    using registry_ok_stopped [OF ok Some] by auto
qed

lemma RemoveTenantWithAMQP_preserves:
  assumes ok: "registry_ok tm rt" and r: "RemoveTenantWithAMQP tm tid rt = Inr (tm', rt')"
  shows "registry_ok tm' rt'"
proof (cases "consumers tm tid")
  case None
  with r ok show ?thesis by (simp add: RemoveTenantWithAMQP_def)
next
  case (Some c)
  note s = stop_consumer [OF registry_ok_pool [OF ok Some]]
  from r Some s have tm': "tm' = tm\<lparr>consumers := (consumers tm)(tid := None)\<rparr>"
    and rt': "nchans rt' = nchans (stopped c rt) \<and> closed rt' = closed (stopped c rt)
       \<and> goroutines rt' = goroutines (stopped c rt)"
    by (auto simp add: RemoveTenantWithAMQP_def broker_def split: option.splits)
  from registry_ok_stopped [OF ok Some] rt' show ?thesis
    unfolding tm' by (auto intro: registry_ok_broker)
qed

lemma registry_ok_init: "registry_ok (NewTenantManager\<lparr>DB := db\<rparr>) rt0"
  by (simp add: registry_ok_def NewTenantManager_def rt0_def)

lemma reachable_registry_ok: "reachable tm rt \<Longrightarrow> registry_ok tm rt"
proof (induction rule: reachable.induct)
  case (start db)
  show ?case by (rule registry_ok_init)
next
  case (add tm rt tid tm' rt')
  then show ?case by (auto intro: AddTenant_preserves)
next
  case (add_amqp tm rt tid conn e tm' rt')
  then show ?case by (auto intro: AddTenantWithAMQP_preserves)
next
  case (remove tm rt tid tm' rt')
  then show ?case by (auto intro: RemoveTenant_preserves)
next
  case (remove_amqp tm rt tid tm' rt')
  then show ?case by (auto intro: RemoveTenantWithAMQP_preserves)
next
  case (update tm rt tid n tm' rt')
  then show ?case by (auto intro: UpdateConcurrency_preserves)
qed

lemma RemoveTenantWithAMQP_registry:
  assumes ok: "registry_ok tm rt" and r: "RemoveTenantWithAMQP tm tid rt = Inr (tm', rt')"
  shows "tm' = tm \<or> tm' = tm\<lparr>consumers := (consumers tm)(tid := None)\<rparr>"
proof (cases "consumers tm tid")
  case None
  with r show ?thesis by (simp add: RemoveTenantWithAMQP_def)
next
  case (Some c)
  note s = stop_consumer [OF registry_ok_pool [OF ok Some]]
  from r Some s show ?thesis
    by (auto simp add: RemoveTenantWithAMQP_def)
qed

lemma RemoveTenant_registry:
  assumes ok: "registry_ok tm rt" and r: "RemoveTenant tm tid rt = Inr (tm', rt')"
  shows "tm' = tm \<or> tm' = tm\<lparr>consumers := (consumers tm)(tid := None)\<rparr>"
proof (cases "consumers tm tid")
  case None
  with r show ?thesis by (simp add: RemoveTenant_def)
next
  case (Some c)
  from r show ?thesis unfolding RemoveTenant_eq [OF ok Some] by simp
qed

lemma wired_restarted: "wired (fst (restarted (c\<lparr>Workers := n\<rparr>) n rt)) = wired c"
  by (simp add: restarted_def wired_def)

lemma reachable_wired:
  "reachable tm rt \<Longrightarrow> consumers tm tid = Some c \<Longrightarrow> wired c"
proof (induction arbitrary: tid c rule: reachable.induct)
  case (start db)
  then show ?case by (simp add: NewTenantManager_def)
next
  case (add tm rt t tm' rt')
  from add.hyps(2) [unfolded AddTenant_eq] add.prems add.IH show ?case
    by (auto simp add: wired_def split: if_splits)
next
  case (add_amqp tm rt t conn e tm' rt')
  show ?case
  proof (cases e)
    case (Some err)
    with add_amqp.hyps(2) have "tm' = tm" using AddTenantWithAMQP_failed by blast
    with add_amqp.prems add_amqp.IH show ?thesis by simp
  next
    case None
    with add_amqp.hyps(2) have c: "\<not> Channel_err conn" "\<not> DeclareDLQ_err conn"
      "\<not> DeclareQueue_err conn" "\<not> Consume_err conn"
      by (auto simp add: AddTenantWithAMQP_def Let_def split: if_splits)
    from add_amqp.hyps(2) [unfolded AddTenantWithAMQP_ok [OF c]] add_amqp.prems add_amqp.IH
    show ?thesis
      by (auto simp add: wired_def amqp_consumer_def split: if_splits)
  qed
next
  case (remove tm rt t tm' rt')
  from RemoveTenant_registry [OF reachable_registry_ok [OF remove.hyps(1)] remove.hyps(2)]
    remove.prems remove.IH
  show ?case by (auto split: if_splits)
next
  case (remove_amqp tm rt t tm' rt')
  from RemoveTenantWithAMQP_registry [OF reachable_registry_ok [OF remove_amqp.hyps(1)]
      remove_amqp.hyps(2)] remove_amqp.prems remove_amqp.IH
  show ?case by (auto split: if_splits)
next
  case (update tm rt t n tm' rt')
  note ok = reachable_registry_ok [OF update.hyps(1)]
  show ?case
  proof (cases "consumers tm t")
    case None
    with update.hyps(2) have "tm' = tm" by (simp add: UpdateConcurrency_def)
    with update.prems update.IH show ?thesis by simp
  next
    case (Some d)
    from update.IH [OF Some] have wd: "wired d" .
    then have wd': "wired (d\<lparr>Workers := n\<rparr>)" by (simp add: wired_def)
    from update.hyps(2) [unfolded UpdateConcurrency_eq [OF ok Some]]
    have "tm' = tm\<lparr>consumers := (consumers tm)(t \<mapsto> d\<lparr>Workers := n\<rparr>)\<rparr>
        \<or> tm' = tm\<lparr>consumers := (consumers tm)(t \<mapsto> fst (restarted (d\<lparr>Workers := n\<rparr>) n rt))\<rparr>"
      by (auto split: if_splits)
    with update.prems update.IH wd wd' wired_restarted [where c = d and n = n and rt = rt] show ?thesis
      by (auto split: if_splits)
  qed
qed

lemma sample_state:
  "AddTenantWithAMQP (NewTenantManager\<lparr>DB := True\<rparr>) ''t1'' conn_ok rt0 = Inr (None, tm_a, rt_a)"
  by (simp add: AddTenantWithAMQP_ok conn_ok_def rt0_def tm_a_def rt_a_def tc_a_def
      NewTenantManager_def amqp_consumer_def amqp_calls_def dlqName_def queueName_def
      numeral_2_eq_2)

lemma reachable_sample: "reachable tm_a rt_a"
  by (rule reachable.add_amqp [OF reachable.start sample_state])


section \<open>Lifecycle operations\<close>

text \<open>
  C6, as the code has it. When the id is already registered and the four broker calls
  succeed, \<^verbatim>\<open>AddTenantWithAMQP\<close> returns nil: it builds a consumer different from the
  registered one, on a new broker channel, starts one worker and the dispatcher for it,
  stores it under the id in place of the earlier entry and sets the gauge to 1. No
  channel is closed by the call.
\<close>

theorem duplicate_create_replaces_consumer:
  assumes r: "reachable tm rt" and old: "consumers tm tid = Some old"
    and conn: "\<not> Channel_err conn" "\<not> DeclareDLQ_err conn" "\<not> DeclareQueue_err conn"
      "\<not> Consume_err conn"
  shows "\<exists>new rt'.
      AddTenantWithAMQP tm tid conn rt
        = Inr (None, tm\<lparr>consumers := (consumers tm)(tid \<mapsto> new)\<rparr>, rt')
      \<and> new \<noteq> old \<and> ID new = tid \<and> Workers new = 1 \<and> manager new
      \<and> amqpChannel new = Some (namqp rt)
      \<and> goroutines rt' = goroutines rt
           @ [Worker 0 (nchans rt + 3) (StopCh new) (TaskCh new),
              ConsumeLoop (StopCh new) (nchans rt) (TaskCh new)]
      \<and> closed rt' = closed rt
      \<and> workerGauge rt' tid = Some 1"
proof -
  from r have ok: "registry_ok tm rt" by (rule reachable_registry_ok)
  from pool_ok_less [OF registry_ok_pool [OF ok old]] have "StopCh old < nchans rt" by simp
  then have "amqp_consumer tid rt \<noteq> old" by (auto simp add: amqp_consumer_def)
  then show ?thesis
    unfolding AddTenantWithAMQP_ok [OF conn]
    by (intro exI [of _ "amqp_consumer tid rt"]
          exI [of _ "rt\<lparr>nchans := nchans rt + 4,
             goroutines := goroutines rt
               @ [Worker 0 (nchans rt + 3) (nchans rt + 1) (nchans rt + 2),
                  ConsumeLoop (nchans rt + 1) (nchans rt) (nchans rt + 2)],
             workerGauge := (workerGauge rt)(tid \<mapsto> 1),
             namqp := Suc (namqp rt),
             calls := calls rt @ amqp_calls tid (namqp rt)\<rparr>"])
       (simp add: amqp_consumer_def)
qed

theorem duplicate_create_replaces_consumer_witness:
  "reachable tm_a rt_a \<and> consumers tm_a ''t1'' = Some tc_a
   \<and> (\<exists>new rt'.
      AddTenantWithAMQP tm_a ''t1'' conn_ok rt_a
        = Inr (None, tm_a\<lparr>consumers := (consumers tm_a)(''t1'' \<mapsto> new)\<rparr>, rt')
      \<and> new \<noteq> tc_a \<and> ID new = ''t1'' \<and> Workers new = 1 \<and> manager new
      \<and> amqpChannel new = Some 1
      \<and> goroutines rt' = [Worker 0 3 1 2, ConsumeLoop 1 0 2]
           @ [Worker 0 7 (StopCh new) (TaskCh new), ConsumeLoop (StopCh new) 4 (TaskCh new)]
      \<and> closed rt' = {}
      \<and> workerGauge rt' ''t1'' = Some 1)"
proof -
  have c: "consumers tm_a ''t1'' = Some tc_a" by (simp add: tm_a_def)
  have k: "\<not> Channel_err conn_ok" "\<not> DeclareDLQ_err conn_ok" "\<not> DeclareQueue_err conn_ok"
    "\<not> Consume_err conn_ok" by (simp_all add: conn_ok_def)
  from duplicate_create_replaces_consumer [OF reachable_sample c k] reachable_sample c
  show ?thesis by (simp add: rt_a_def)
qed

text \<open>
  C6 as stated fails: creating tenant \<open>t1\<close> a second time returns no error, the registry
  entry changes from \<open>tc_a\<close> to \<open>tc_b\<close>, and a second worker and dispatcher run beside the
  first ones.
\<close>

theorem duplicate_create_counterexample:
  "AddTenantWithAMQP (NewTenantManager\<lparr>DB := True\<rparr>) ''t1'' conn_ok rt0 = Inr (None, tm_a, rt_a)
   \<and> AddTenantWithAMQP tm_a ''t1'' conn_ok rt_a = Inr (None, tm_b, rt_b)
   \<and> consumers tm_a ''t1'' = Some tc_a \<and> consumers tm_b ''t1'' = Some tc_b \<and> tc_b \<noteq> tc_a
   \<and> goroutines rt_a = [Worker 0 3 1 2, ConsumeLoop 1 0 2]
   \<and> goroutines rt_b = [Worker 0 3 1 2, ConsumeLoop 1 0 2, Worker 0 7 5 6, ConsumeLoop 5 4 6]"
proof -
  have "AddTenantWithAMQP tm_a ''t1'' conn_ok rt_a = Inr (None, tm_b, rt_b)"
    by (simp add: AddTenantWithAMQP_ok conn_ok_def tm_a_def rt_a_def tm_b_def rt_b_def tc_b_def
        amqp_consumer_def amqp_calls_def dlqName_def queueName_def)
  then show ?thesis
    by (simp add: sample_state) (simp add: tm_a_def tm_b_def rt_a_def rt_b_def tc_a_def tc_b_def)
qed







section \<open>Delivery accountability\<close>

text \<open>
  C5, as the code has it. For a consumer registered in a reachable state, the acks and
  nacks of a worker's run are, in order, exactly one per delivery the worker took from
  the task channel: a nack with requeue when the three inserts and the publish to the
  dead-letter queue all failed, an ack otherwise.
\<close>

theorem dequeued_deliveries_settled_once:
  assumes "reachable tm rt" and "consumers tm tid = Some tc"
  shows "filter is_settle (worker_loop tc db ins_err pub_err sels)
           = map (settlement tc db ins_err pub_err) (dequeued sels)"
  using reachable_wired [OF assms] by (rule worker_loop_settles)

theorem dequeued_deliveries_settled_once_witness:
  "reachable tm_a rt_a \<and> consumers tm_a ''t1'' = Some tc_a
   \<and> filter is_settle
       (worker_loop tc_a True (\<lambda>tag k. tag = 6) (\<lambda>tag. True)
          [TaskReceived (Some (DeliveryTask dlv5)), TaskReceived (Some (DeliveryTask dlv6)), StopSignal])
     = [Ack 5 False, Nack 6 False True]"
proof -
  have c: "consumers tm_a ''t1'' = Some tc_a" by (simp add: tm_a_def)
  from dequeued_deliveries_settled_once [OF reachable_sample c, of True "\<lambda>tag k. tag = 6" "\<lambda>tag. True"
      "[TaskReceived (Some (DeliveryTask dlv5)), TaskReceived (Some (DeliveryTask dlv6)), StopSignal]"]
    reachable_sample c
  show ?thesis by (simp add: settlement_def dlv5_def dlv6_def tc_a_def)
qed

text \<open>
  C5 as stated fails: the dispatcher receives the deliveries 5 and 6, hands 5 to the task
  channel and takes the stop signal while it waits to hand over 6; the worker handles
  everything that reached the task channel, and 6 is neither acked nor nacked. Likewise a
  worker that takes the stop signal first leaves delivery 5 in the task channel unsettled.
\<close>

theorem delivery_accountability_counterexample:
  "consumeLoop [Received (Some dlv5) Sent, Received (Some dlv6) StopWhileSending]
     = ([dlv5, dlv6], [DeliveryTask dlv5])
   \<and> worker_loop tc_a True (\<lambda>tag k. False) (\<lambda>tag. False)
        [TaskReceived (Some (DeliveryTask dlv5)), TenantStopSignal]
     = [InsertMessage ''t1'' ''{}'', MessagesTotalInc ''t1'', Ack 5 False]
   \<and> filter (settles 6)
        (worker_loop tc_a True (\<lambda>tag k. False) (\<lambda>tag. False)
           [TaskReceived (Some (DeliveryTask dlv5)), TenantStopSignal]) = []
   \<and> filter (settles 5)
        (worker_loop tc_a True (\<lambda>tag k. False) (\<lambda>tag. False)
           [TenantStopSignal, TaskReceived (Some (DeliveryTask dlv5))]) = []"
  by (simp add: process_delivery_trace dlv5_def dlv6_def tc_a_def)

end
